theory Spec2Isabelle
  imports Main "HOL-Library.AList" "HOL-Library.Char_ord" "HOL-Library.List_Lexorder"
begin

section \<open>JavaScript values and structs\<close>

text \<open>
  The library manipulates plain JavaScript objects. A value is a primitive or an
  object; an object is its own enumerable string-keyed properties, in insertion order,
  together with its prototype. The prototype slot holds \<open>VNull\<close> for an object
  whose prototype is a built-in one, as that of an object created by a literal: the
  built-in prototypes define none of \<open>_tag\<close>, \<open>value\<close>, \<open>left\<close> and
  \<open>right\<close>, the names the code looks up through the chain of a value. Numbers are
  only carried around by the code, never computed with, so they are integers here.
\<close>

datatype val =
    VUndefined
  | VNull
  | VBool bool
  | VNum int
  | VStr string
  | VObj "(string \<times> val) list" val

text \<open>
  A struct is the list of own enumerable properties of the object handed to an
  operation: every operation reaches the fields through \<open>Object.keys\<close>, or through
  \<open>for ... in\<close> guarded by \<open>hasOwnProperty\<close>, so nothing inherited is read.
  A well-formed struct has pairwise distinct keys. JavaScript enumerates integer-like
  keys before the others; the properties proved below are about the set of keys and the
  value under each key, which do not depend on the order of enumeration.
\<close>

type_synonym struct = "(string \<times> val) list"

definition wf_struct :: "(string \<times> 'v) list \<Rightarrow> bool" where
  "wf_struct s = distinct (map fst s)"

text \<open>\<open>Object.keys(s)\<close>\<close>

definition keysOf :: "(string \<times> 'v) list \<Rightarrow> string list" where
  "keysOf s = map fst s"

text \<open>The property read \<open>s[k]\<close> on a struct: \<open>undefined\<close> when the key is missing.\<close>

definition getProp :: "struct \<Rightarrow> string \<Rightarrow> val" where
  "getProp s k = (case map_of s k of None \<Rightarrow> VUndefined | Some v \<Rightarrow> v)"

text \<open>
  Defining an own property, as an object spread, a rest pattern and a computed key of an
  object literal do: an existing property keeps its place, a new one is appended.
\<close>

fun setProp :: "string \<Rightarrow> 'v \<Rightarrow> (string \<times> 'v) list \<Rightarrow> (string \<times> 'v) list" where
  "setProp k v [] = [(k, v)]"
| "setProp k v ((k', v') # ps) =
     (if k' = k then (k, v) # ps else (k', v') # setProp k v ps)"

text \<open>
  The assignment \<open>o[k] = v\<close> on an object that was created by a literal. Under every
  name but one it defines the own property. The name \<open>__proto__\<close> is an accessor
  that the object inherits from \<open>Object.prototype\<close>: unless the object has an own
  property of that name, the assignment runs the inherited setter, which replaces the
  prototype of the object when \<open>v\<close> is an object or \<open>null\<close> and does nothing
  otherwise. No own property is added either way. The keys of a struct are distinct, so
  at most one assignment of a loop over them goes to that name. The prototype of a
  struct is not recorded: no operation reads a field of a struct through it.
\<close>

definition assignProp :: "string \<Rightarrow> 'v \<Rightarrow> (string \<times> 'v) list \<Rightarrow> (string \<times> 'v) list" where
  "assignProp k v ps =
     (if k = ''__proto__'' \<and> k \<notin> set (keysOf ps) then ps else setProp k v ps)"

section \<open>Property access on arbitrary values\<close>

text \<open>
  \<open>k in a\<close> and the read \<open>a.k\<close> on an object follow the prototype chain.
  Reading a property of \<open>null\<close> or \<open>undefined\<close> throws a \<open>TypeError\<close>; reading
  one of a number, string or boolean gives \<open>undefined\<close> for the names the code
  reads (\<open>_tag\<close>, \<open>value\<close>, \<open>left\<close> and \<open>right\<close>); the built-in properties
  of primitives are not modelled.
\<close>

datatype js_error = TypeError

fun lookupChain :: "val \<Rightarrow> string \<Rightarrow> val option" where
  "lookupChain (VObj ps proto) k =
     (case map_of ps k of Some v \<Rightarrow> Some v | None \<Rightarrow> lookupChain proto k)"
| "lookupChain a k = None"

definition hasIn :: "string \<Rightarrow> val \<Rightarrow> bool" where
  "hasIn k a = (lookupChain a k \<noteq> None)"

fun readProp :: "val \<Rightarrow> string \<Rightarrow> js_error + val" where
  "readProp VUndefined k = Inl TypeError"
| "readProp VNull k = Inl TypeError"
| "readProp a k = Inr (case lookupChain a k of None \<Rightarrow> VUndefined | Some v \<Rightarrow> v)"

definition andThen :: "'e + 'a \<Rightarrow> ('a \<Rightarrow> 'e + 'b) \<Rightarrow> 'e + 'b" where
  "andThen m k = (case m of Inl e \<Rightarrow> Inl e | Inr a \<Rightarrow> k a)"

section \<open>parse\<close>

text \<open>
  Modelled from the spec: the \<open>Either\<close> module, which \<open>struct.ts\<close> imports and
  which is not among the sources. It is the two-variant result container, told apart by
  its tag: its values are the tagged objects \<open>{ _tag: 'Left', left: e }\<close> and
  \<open>{ _tag: 'Right', right: a }\<close>, and \<open>isLeft\<close> compares the tag. The
  \<open>Either\<close> that \<open>parse\<close> itself returns, \<open>left(failed)\<close> or
  \<open>right(parsed)\<close>, is the sum type: \<open>Inl failed\<close> or \<open>Inr parsed\<close>.
\<close>

definition E_left :: "val \<Rightarrow> val" where
  "E_left e = VObj [(''_tag'', VStr ''Left''), (''left'', e)] VNull"

definition E_right :: "val \<Rightarrow> val" where
  "E_right a = VObj [(''_tag'', VStr ''Right''), (''right'', a)] VNull"

definition isLeft :: "val \<Rightarrow> js_error + bool" where
  "isLeft ma = andThen (readProp ma ''_tag'') (\<lambda>t. Inr (t = VStr ''Left''))"

text \<open>
  The parser map \<open>f\<close> is an object, and \<open>f[k]\<close> is a read through its prototype
  chain. What the read finds is falsy, or a function, or a truthy value that cannot be
  called. A function found there is called with the field's value; it returns a value
  or throws. A parser returns an \<open>Either\<close>, by its type.
\<close>

datatype member = Missing | Method "val \<Rightarrow> js_error + val" | NotCallable

type_synonym parsers = "string \<Rightarrow> member"

definition parserOf :: "(val \<Rightarrow> val + val) \<Rightarrow> member" where
  "parserOf p = Method (\<lambda>v. Inr (case p v of Inl e \<Rightarrow> E_left e | Inr a \<Rightarrow> E_right a))"

text \<open>
  The members of \<open>Object.prototype\<close>, which every object literal inherits, called the
  way \<open>parse\<close> calls what it finds: \<open>fk(v)\<close>, a plain call in a module, where
  \<open>this\<close> is \<open>undefined\<close>. \<open>constructor\<close> is \<open>Object\<close>, which returns its
  argument when that is an object, a new empty object for \<open>null\<close> and
  \<open>undefined\<close>, and a wrapper object for another primitive: the wrapper of a string
  has its characters as own properties, under their indices, the wrapper of a number or
  boolean has no own enumerable property. \<open>toString\<close> returns
  \<open>'[object Undefined]'\<close>. \<open>isPrototypeOf\<close> returns \<open>false\<close> for an argument
  that is not an object. Every other call converts \<open>this\<close> to an object first and
  throws. \<open>__proto__\<close> reads as the prototype itself, an object: it is truthy and
  calling it throws.
\<close>

fun decimal :: "nat \<Rightarrow> string" where
  "decimal n =
     (if n < 10 then [char_of (48 + n)]
      else decimal (n div 10) @ [char_of (48 + n mod 10)])"

fun indexed :: "nat \<Rightarrow> string \<Rightarrow> (string \<times> val) list" where
  "indexed i [] = []"
| "indexed i (c # cs) = (decimal i, VStr [c]) # indexed (Suc i) cs"

fun toObject :: "val \<Rightarrow> val" where
  "toObject (VObj ps proto) = VObj ps proto"
| "toObject (VStr s) = VObj (indexed 0 s) VNull"
| "toObject a = VObj [] VNull"

definition objectPrototype :: "string \<Rightarrow> member" where
  "objectPrototype k =
     (if k = ''constructor'' then Method (\<lambda>v. Inr (toObject v))
      else if k = ''toString'' then Method (\<lambda>v. Inr (VStr ''[object Undefined]''))
      else if k = ''isPrototypeOf''
        then Method (\<lambda>v. case v of VObj ps proto \<Rightarrow> Inl TypeError | _ \<Rightarrow> Inr (VBool False))
      else if k \<in> set [''toLocaleString'', ''valueOf'', ''hasOwnProperty'',
                        ''propertyIsEnumerable'', ''__defineGetter__'', ''__defineSetter__'',
                        ''__lookupGetter__'', ''__lookupSetter__'']
        then Method (\<lambda>v. Inl TypeError)
      else if k = ''__proto__'' then NotCallable
      else Missing)"

text \<open>
  A parser map written as an object literal holds its parsers as own properties and
  inherits the members of \<open>Object.prototype\<close>; one created with a \<open>null\<close>
  prototype inherits nothing.
\<close>

definition objectLiteral :: "(string \<Rightarrow> (val \<Rightarrow> val + val) option) \<Rightarrow> parsers" where
  "objectLiteral own k = (case own k of Some p \<Rightarrow> parserOf p | None \<Rightarrow> objectPrototype k)"

definition nullPrototype :: "(string \<Rightarrow> (val \<Rightarrow> val + val) option) \<Rightarrow> parsers" where
  "nullPrototype own k = (case own k of Some p \<Rightarrow> parserOf p | None \<Rightarrow> Missing)"

text \<open>
  Modelled from the spec: \<open>ReadonlyRecord.partitionMapWithIndex\<close>, which
  \<open>struct.ts\<close> imports and which is not among the sources. All fields are evaluated;
  a failure is collected into a mapping from field name to error, a success into a
  mapping from field name to parsed value. The walk goes over the own properties of the
  record; \<open>e = f(k, r[k])\<close> is filed by its tag, \<open>left[k] = e.left\<close> when
  \<open>isLeft(e)\<close> and \<open>right[k] = e.right\<close> otherwise (\<open>fileEither\<close>). The two
  records are built the way \<open>struct.ts\<close> builds its own, in \<open>unCompact\<close> and
  \<open>pick\<close>: an empty object literal filled by assignments.
\<close>

definition fileEither :: "val \<Rightarrow> js_error + (val + val)" where
  "fileEither e =
     andThen (isLeft e) (\<lambda>l.
       if l then andThen (readProp e ''left'') (\<lambda>x. Inr (Inl x))
       else andThen (readProp e ''right'') (\<lambda>x. Inr (Inr x)))"

definition partitionMapStep ::
  "(string \<Rightarrow> val \<Rightarrow> js_error + val) \<Rightarrow> struct \<times> struct \<Rightarrow> string \<times> val
     \<Rightarrow> js_error + struct \<times> struct" where
  "partitionMapStep f acc kv =
     andThen (f (fst kv) (snd kv)) (\<lambda>e.
     andThen (fileEither e) (\<lambda>d.
       Inr (case d of
              Inl x \<Rightarrow> (assignProp (fst kv) x (fst acc), snd acc)
            | Inr x \<Rightarrow> (fst acc, assignProp (fst kv) x (snd acc)))))"

fun partitionMapLoop ::
  "(string \<Rightarrow> val \<Rightarrow> js_error + val) \<Rightarrow> struct \<times> struct \<Rightarrow> struct
     \<Rightarrow> js_error + struct \<times> struct" where
  "partitionMapLoop f acc [] = Inr acc"
| "partitionMapLoop f acc (kv # r) =
     andThen (partitionMapStep f acc kv) (\<lambda>acc'. partitionMapLoop f acc' r)"

definition partitionMapWithIndex ::
  "(string \<Rightarrow> val \<Rightarrow> js_error + val) \<Rightarrow> struct \<Rightarrow> js_error + struct \<times> struct" where
  "partitionMapWithIndex f r = partitionMapLoop f ([], []) r"

text \<open>
  The callback \<open>parse\<close> hands to \<open>partitionMapWithIndex\<close>:
  \<open>(k, v) => { const fk = f[k]; if (fk) { return fk(v) } else { return right(v) } }\<close>.
\<close>

definition parseField :: "parsers \<Rightarrow> string \<Rightarrow> val \<Rightarrow> js_error + val" where
  "parseField f k v =
     (case f k of
        Method fk \<Rightarrow> fk v
      | NotCallable \<Rightarrow> Inl TypeError
      | Missing \<Rightarrow> Inr (E_right v))"

definition parse :: "parsers \<Rightarrow> struct \<Rightarrow> js_error + (struct + struct)" where
  "parse f fa =
     andThen (partitionMapWithIndex (parseField f) fa) (\<lambda>(failed, parsed).
       Inr (if length (keysOf parsed) = length (keysOf fa) then Inr parsed else Inl failed))"

text \<open>
  The decision the specification contrasts with the one in the code: succeed exactly
  when the error map is empty.
\<close>

definition parse_by_errors :: "parsers \<Rightarrow> struct \<Rightarrow> js_error + (struct + struct)" where
  "parse_by_errors f fa =
     andThen (partitionMapWithIndex (parseField f) fa) (\<lambda>(failed, parsed).
       Inr (if keysOf failed = [] then Inr parsed else Inl failed))"

text \<open>
  What a field yields when its parser, if the map has one for it, is an own property of
  the map: the parser's result, or the value itself. The failures and the successes of
  a struct, each in enumeration order, are the two records of the walk in that case.
\<close>

definition fieldResult :: "(string \<Rightarrow> (val \<Rightarrow> val + val) option) \<Rightarrow> string \<Rightarrow> val \<Rightarrow> val + val" where
  "fieldResult own k v = (case own k of Some fk \<Rightarrow> fk v | None \<Rightarrow> Inr v)"

definition lefts :: "(string \<Rightarrow> val \<Rightarrow> val + val) \<Rightarrow> struct \<Rightarrow> struct" where
  "lefts f r = List.map_filter
     (\<lambda>kv. case f (fst kv) (snd kv) of Inl e \<Rightarrow> Some (fst kv, e) | Inr a \<Rightarrow> None) r"

definition rights :: "(string \<Rightarrow> val \<Rightarrow> val + val) \<Rightarrow> struct \<Rightarrow> struct" where
  "rights f r = List.map_filter
     (\<lambda>kv. case f (fst kv) (snd kv) of Inl e \<Rightarrow> None | Inr a \<Rightarrow> Some (fst kv, a)) r"

text \<open>
  \<open>inheritsNothing f own fa\<close>: under the field names of \<open>fa\<close>, the parser map
  \<open>f\<close> holds the parsers \<open>own\<close> and nothing else.
\<close>

definition inheritsNothing ::
  "parsers \<Rightarrow> (string \<Rightarrow> (val \<Rightarrow> val + val) option) \<Rightarrow> struct \<Rightarrow> bool" where
  "inheritsNothing f own fa \<longleftrightarrow> (\<forall>k \<in> set (keysOf fa). f k = nullPrototype own k)"

text \<open>
  The parsers of the repository's test of \<open>parse\<close>, the parser maps \<open>{}\<close> and
  \<open>{ ['__proto__']: (n) => right(n) }\<close>, whose computed key defines an own
  property, and the structs \<open>{ toString: 1, a: 2 }\<close> and
  \<open>JSON.parse('{"__proto__": 5, "a": "a"}')\<close>, whose field \<open>__proto__\<close> is an own
  property.
\<close>

definition exOwnParsers :: "string \<Rightarrow> (val \<Rightarrow> val + val) option" where
  "exOwnParsers k =
     (if k = ''a'' then Some (\<lambda>v. if v = VStr ''a'' then Inr (VNum 1) else Inl (VStr ''Not a''))
      else if k = ''b'' then Some (\<lambda>v. if v = VNum 1 then Inr (VStr ''a'') else Inl (VNum 42))
      else None)"

definition exParsers :: parsers where
  "exParsers = objectLiteral exOwnParsers"

definition noParsers :: parsers where
  "noParsers = objectLiteral (\<lambda>k. None)"

definition protoParsers :: parsers where
  "protoParsers = objectLiteral (\<lambda>k. if k = ''__proto__'' then Some (\<lambda>n. Inr n) else None)"

definition exStruct :: struct where
  "exStruct = [(''a'', VStr ''b''), (''b'', VNum 1), (''c'', VStr ''abc'')]"

definition toStringStruct :: struct where
  "toStringStruct = [(''toString'', VNum 1), (''a'', VNum 2)]"

definition protoStruct :: struct where
  "protoStruct = [(''__proto__'', VNum 5), (''a'', VStr ''a'')]"

section \<open>The Option module\<close>

text \<open>
  Modelled from the spec: the \<open>Option\<close> module, which \<open>struct.ts\<close> imports and
  which is not among the sources. It is the two-variant optional container, told apart
  by its tag: absent, or present with a payload. Its values are the tagged objects that
  \<open>isOption\<close> in \<open>struct.ts\<close> recognises, \<open>{ _tag: 'None' }\<close> and
  \<open>{ _tag: 'Some', value: a }\<close>; \<open>isNone\<close> compares the tag;
  \<open>fromNullable\<close> maps the two nullish values to absent and everything else to
  present.
\<close>

definition none :: val where
  "none = VObj [(''_tag'', VStr ''None'')] VNull"

definition some :: "val \<Rightarrow> val" where
  "some a = VObj [(''_tag'', VStr ''Some''), (''value'', a)] VNull"

definition isNone :: "val \<Rightarrow> js_error + bool" where
  "isNone fa = andThen (readProp fa ''_tag'') (\<lambda>t. Inr (t = VStr ''None''))"

text \<open>The read \<open>fa.value\<close> on an object.\<close>

definition payload :: "val \<Rightarrow> val" where
  "payload fa = (case lookupChain fa ''value'' of None \<Rightarrow> VUndefined | Some v \<Rightarrow> v)"

definition nullish :: "val \<Rightarrow> bool" where
  "nullish a = (a = VNull \<or> a = VUndefined)"

definition fromNullable :: "val \<Rightarrow> val" where
  "fromNullable a = (if nullish a then none else some a)"

section \<open>The effect capability\<close>

text \<open>
  \<open>traverseS\<close> is written against an \<open>Apply\<close> instance \<open>F\<close> with the curried
  operations \<open>F.map(f)(fa)\<close> and \<open>F.ap(fa)(fab)\<close>. HOL has no quantification over
  type constructors, so an instance is a record of the operations at the types at which
  \<open>traverseS\<close> uses them: \<open>'fv\<close> is the type of what a handler returns, \<open>'fs\<close> an
  effect holding a partial struct, \<open>'ff\<close> an effect holding a function awaiting the
  next field.
  \<^item> \<open>map_seed\<close> is \<open>F.map\<close> in the initialisation of \<open>fr\<close>;
  \<^item> \<open>map_fn\<close> is \<open>F.map\<close> under \<open>F.ap\<close>, in the branch for a field with a handler;
  \<^item> \<open>map_acc\<close> is \<open>F.map\<close> in the branch for a field without a handler;
  \<^item> \<open>ap\<close> is \<open>F.ap\<close>;
  \<^item> \<open>as_any\<close> is the cast \<open>ta[ks[0]] as any\<close>: the raw field value as the
    capability sees it when it is passed where an effect is expected.
  Each operation may throw.
\<close>

record ('fv, 'fs, 'ff) Apply =
  map_seed :: "(val \<Rightarrow> struct) \<Rightarrow> 'fv \<Rightarrow> js_error + 'fs"
  map_fn :: "(struct \<Rightarrow> val \<Rightarrow> struct) \<Rightarrow> 'fs \<Rightarrow> js_error + 'ff"
  map_acc :: "(struct \<Rightarrow> struct) \<Rightarrow> 'fs \<Rightarrow> js_error + 'fs"
  ap :: "'fv \<Rightarrow> 'ff \<Rightarrow> js_error + 'fs"
  as_any :: "val \<Rightarrow> 'fv"

text \<open>
  Modelled from the spec: \<open>Option.Apply\<close>, the optional effect, not among the
  sources: no further computation on failure, so
  \<open>map(f)(fa) = isNone(fa) ? none : some(f(fa.value))\<close> and
  \<open>ap(fa)(fab) = isNone(fab) ? none : isNone(fa) ? none : some(fab.value(fa.value))\<close>.
  What a handler returns is a JavaScript value (\<open>'fv = val\<close>), inspected through its
  \<open>_tag\<close> and \<open>value\<close> properties; the accumulated effects, which only the
  capability itself produces, are \<open>None\<close> for \<open>none\<close> and \<open>Some x\<close> for \<open>some(x)\<close>.
\<close>

definition optionMap :: "(val \<Rightarrow> 'b) \<Rightarrow> val \<Rightarrow> js_error + 'b option" where
  "optionMap f fa =
     andThen (isNone fa) (\<lambda>n.
       if n then Inr None
       else andThen (readProp fa ''value'') (\<lambda>v. Inr (Some (f v))))"

definition optionAp :: "val \<Rightarrow> (val \<Rightarrow> 'b) option \<Rightarrow> js_error + 'b option" where
  "optionAp fa fab =
     (case fab of
        None \<Rightarrow> Inr None
      | Some h \<Rightarrow>
          andThen (isNone fa) (\<lambda>n.
            if n then Inr None
            else andThen (readProp fa ''value'') (\<lambda>v. Inr (Some (h v)))))"

definition OptionApply :: "(val, struct option, (val \<Rightarrow> struct) option) Apply" where
  "OptionApply =
     \<lparr> map_seed = optionMap,
       map_fn = (\<lambda>g fr. Inr (map_option g fr)),
       map_acc = (\<lambda>g fr. Inr (map_option g fr)),
       ap = optionAp,
       as_any = (\<lambda>v. v) \<rparr>"

text \<open>
  An instrumented capability: it behaves as \<open>F\<close> and records, next to every effect
  it returns, the operations that produced it, oldest first.
\<close>

datatype effect_op = MapOp | ApOp

definition logged ::
  "('fv, 'fs, 'ff) Apply \<Rightarrow> ('fv, 'fs \<times> effect_op list, 'ff \<times> effect_op list) Apply" where
  "logged F =
     \<lparr> map_seed = (\<lambda>g x. andThen (map_seed F g x) (\<lambda>r. Inr (r, [MapOp]))),
       map_fn = (\<lambda>g fr. andThen (map_fn F g (fst fr)) (\<lambda>r. Inr (r, snd fr @ [MapOp]))),
       map_acc = (\<lambda>g fr. andThen (map_acc F g (fst fr)) (\<lambda>r. Inr (r, snd fr @ [MapOp]))),
       ap = (\<lambda>x ff. andThen (ap F x (fst ff)) (\<lambda>r. Inr (r, snd ff @ [ApOp]))),
       as_any = as_any F \<rparr>"

section \<open>traverseS\<close>

text \<open>
  An \<open>Ord<string>\<close> is its comparison: \<open>cmp first second\<close> is
  \<open>O.compare(second)(first)\<close>, negative when \<open>first\<close> comes before \<open>second\<close>.

  Modelled from the spec: \<open>Ord\<close> of the \<open>string\<close> module, not among the sources,
  the default lexicographic string ordering.
\<close>

type_synonym Ord = "string \<Rightarrow> string \<Rightarrow> int"

definition StringOrd :: Ord where
  "StringOrd first second = (if first < second then - 1 else if second < first then 1 else 0)"

text \<open>
  Modelled from the spec: \<open>ReadonlyRecord.keys\<close>, not among the sources. It gives
  the ordered sequence of field names, the ordering provider applied to the struct's own
  keys: \<open>Object.keys(r)\<close>, sorted with the comparison of \<open>O\<close>. The sort is a
  stable insertion sort here; every correct sort returns the same list when the
  comparison is a total order, the keys of an object being distinct.
\<close>

fun insertBy :: "Ord \<Rightarrow> string \<Rightarrow> string list \<Rightarrow> string list" where
  "insertBy cmp x [] = [x]"
| "insertBy cmp x (y # ys) = (if cmp x y < 0 then x # y # ys else y # insertBy cmp x ys)"

definition sortBy :: "Ord \<Rightarrow> string list \<Rightarrow> string list" where
  "sortBy cmp xs = foldl (\<lambda>acc x. insertBy cmp x acc) [] xs"

definition keys :: "Ord \<Rightarrow> (string \<times> 'v) list \<Rightarrow> string list" where
  "keys cmp r = sortBy cmp (keysOf r)"

text \<open>
  A handler map is read as \<open>f[k]\<close>, through its prototype chain: \<open>f k\<close> is what
  the read finds, \<open>None\<close> when that is falsy and the function found otherwise.
\<close>

type_synonym 'fv handlers = "string \<Rightarrow> (val \<Rightarrow> 'fv) option"

text \<open>
  One round of the \<open>for\<close> loop, for the key \<open>k = ks[i]\<close>. The closures
  \<open>(r) => (b) => { r[ks[i]] = b; return r }\<close> and
  \<open>(r) => { r[ks[i]] = ta[ks[i]]; return r }\<close> write into the accumulated struct
  \<open>r\<close> and return it; on values, they return the struct with the field written.
\<close>

definition traverseStep ::
  "('fv, 'fs, 'ff) Apply \<Rightarrow> 'fv handlers \<Rightarrow> struct \<Rightarrow> 'fs \<Rightarrow> string \<Rightarrow> js_error + 'fs" where
  "traverseStep F f ta fr k =
     (case f k of
        Some fk \<Rightarrow>
          andThen (map_fn F (\<lambda>r b. assignProp k b r) fr) (\<lambda>ff. ap F (fk (getProp ta k)) ff)
      | None \<Rightarrow> map_acc F (\<lambda>r. assignProp k (getProp ta k) r) fr)"

fun traverseLoop ::
  "('fv, 'fs, 'ff) Apply \<Rightarrow> 'fv handlers \<Rightarrow> struct \<Rightarrow> 'fs \<Rightarrow> string list \<Rightarrow> js_error + 'fs" where
  "traverseLoop F f ta fr [] = Inr fr"
| "traverseLoop F f ta fr (k # ks) =
     andThen (traverseStep F f ta fr k) (\<lambda>fr'. traverseLoop F f ta fr' ks)"

text \<open>
  \<open>ks[0]\<close> of an empty array is \<open>undefined\<close>, which as a property key is the string
  \<open>"undefined"\<close>; the loop starts at index 1.
\<close>

definition firstKey :: "string list \<Rightarrow> string" where
  "firstKey ks = (case ks of [] \<Rightarrow> ''undefined'' | k # rest \<Rightarrow> k)"

definition traverseS ::
  "Ord \<Rightarrow> ('fv, 'fs, 'ff) Apply \<Rightarrow> 'fv handlers \<Rightarrow> struct \<Rightarrow> js_error + 'fs" where
  "traverseS cmp F f ta =
     (let ks = keys cmp ta;
          k0 = firstKey ks;
          seed = (case f k0 of
                    Some fk \<Rightarrow> fk (getProp ta k0)
                  | None \<Rightarrow> as_any F (getProp ta k0))
      in andThen (map_seed F (\<lambda>r. [(k0, r)]) seed)
           (\<lambda>fr. traverseLoop F f ta fr (drop 1 ks)))"

section \<open>compactS and unCompact\<close>

text \<open>
  \<open>isOption\<close>, as written: \<open>typeof a === 'object' && !!a\<close> holds of objects only,
  \<open>in\<close> and the reads of \<open>_tag\<close> follow the prototype chain, and
  \<open>Object.keys(a).length\<close> counts the own properties.
\<close>

fun isOption :: "val \<Rightarrow> bool" where
  "isOption (VObj ps proto) =
     (hasIn ''_tag'' (VObj ps proto) \<and>
      ((lookupChain (VObj ps proto) ''_tag'' = Some (VStr ''Some'')
          \<and> hasIn ''value'' (VObj ps proto) \<and> length (keysOf ps) = 2)
       \<or> lookupChain (VObj ps proto) ''_tag'' = Some (VStr ''None'')))"
| "isOption a = False"

text \<open>
  Modelled from the spec: \<open>ReadonlyRecord.partition\<close> and
  \<open>ReadonlyRecord.filterMap\<close>, which \<open>struct.ts\<close> imports and which are not among
  the sources. \<open>partition(p)(r)\<close> splits the own fields of \<open>r\<close> into those whose
  value passes the test, written into the record \<open>right\<close>, and everything else,
  written into \<open>left\<close>. \<open>filterMap(f)(r)\<close> keeps the own fields whose
  \<open>f(r[k])\<close> is in the present state, the value replaced by the unwrapped payload
  \<open>f(r[k]).value\<close>, and drops the others. The values \<open>compactS\<close> hands to
  \<open>filterMap\<close> are objects, whose properties can be read without a throw. The
  records are built the way \<open>struct.ts\<close> builds its own: an empty object literal
  filled by assignments.
\<close>

definition partitionR :: "(val \<Rightarrow> bool) \<Rightarrow> struct \<Rightarrow> struct \<times> struct" where
  "partitionR p r =
     foldl (\<lambda>acc kv. if p (snd kv) then (fst acc, assignProp (fst kv) (snd kv) (snd acc))
                      else (assignProp (fst kv) (snd kv) (fst acc), snd acc)) ([], []) r"

definition filterMapR :: "(val \<Rightarrow> val) \<Rightarrow> struct \<Rightarrow> struct" where
  "filterMapR f r =
     foldl (\<lambda>out kv.
        if lookupChain (f (snd kv)) ''_tag'' = Some (VStr ''Some'')
        then assignProp (fst kv) (payload (f (snd kv))) out
        else out) [] r"

text \<open>
  Object spread: the own properties of the source are defined on the target one after
  the other.
\<close>

definition assign :: "(string \<times> 'v) list \<Rightarrow> (string \<times> 'v) list \<Rightarrow> (string \<times> 'v) list" where
  "assign target source = foldl (\<lambda>out kv. setProp (fst kv) (snd kv) out) target source"

definition compactS :: "struct \<Rightarrow> struct" where
  "compactS r =
     (let (left, right) = partitionR isOption r
      in assign (assign [] left) (filterMapR (\<lambda>a. a) right))"

definition unCompact :: "struct \<Rightarrow> struct" where
  "unCompact a =
     foldl (\<lambda>ops key. assignProp key (fromNullable (getProp a key)) ops) [] (keysOf a)"

section \<open>Inserting fields and merging\<close>

text \<open>
  \<open>let\<close> and \<open>bind\<close> build \<open>{ ...t, [key]: value }\<close>: the spread copies the
  own properties into a new object, then the key is written.
\<close>

definition letFn :: "string \<Rightarrow> val \<Rightarrow> struct \<Rightarrow> struct" where
  "letFn key value t = setProp key value (assign [] t)"

definition bind :: "string \<Rightarrow> (struct \<Rightarrow> val) \<Rightarrow> struct \<Rightarrow> struct" where
  "bind key fn obj = setProp key (fn obj) (assign [] obj)"

text \<open>
  \<open>Object.assign(target, source)\<close> assigns the own properties of the source to the
  target, one after the other. Its target here is a new empty object, and two sources
  can each hold a field \<open>__proto__\<close>, so what the target inherits is recorded next
  to its properties: it inherits the accessor \<open>__proto__\<close> until an assignment to
  that name gives it a prototype without it, which is \<open>null\<close> or an object with a
  property of that name on its chain.
\<close>

fun chainHasSetter :: "val \<Rightarrow> bool" where
  "chainHasSetter (VObj ps proto) = (''__proto__'' \<notin> set (keysOf ps) \<and> chainHasSetter proto)"
| "chainHasSetter a = True"

definition assignStep :: "struct \<times> bool \<Rightarrow> string \<times> val \<Rightarrow> struct \<times> bool" where
  "assignStep target kv =
     (if fst kv = ''__proto__'' \<and> fst kv \<notin> set (keysOf (fst target)) \<and> snd target
      then (fst target,
            (case snd kv of VObj ps proto \<Rightarrow> chainHasSetter (snd kv) | VNull \<Rightarrow> False | _ \<Rightarrow> True))
      else (setProp (fst kv) (snd kv) (fst target), snd target))"

definition Object_assign :: "struct \<times> bool \<Rightarrow> struct \<Rightarrow> struct \<times> bool" where
  "Object_assign target source = foldl assignStep target source"

text \<open>\<open>getAssignSemigroup().concat\<close>: \<open>(second) => (first) => Object.assign({}, first, second)\<close>.\<close>

definition concat_assign :: "struct \<Rightarrow> struct \<Rightarrow> struct" where
  "concat_assign second first = fst (Object_assign (Object_assign ([], True) first) second)"

section \<open>Vocabulary for the claims about traverseS\<close>

text \<open>
  Under the optional effect a handler succeeds when it returns \<open>some(x)\<close>, whose
  payload is \<open>x\<close>. \<open>resolvedValue f ta k\<close> is the value the field \<open>k\<close> is to
  hold in the result: the handler's output, or the original value when the field has no
  handler.
\<close>

definition successful :: "val \<Rightarrow> bool" where
  "successful fa = (fa = some (payload fa))"

definition resolvedValue :: "val handlers \<Rightarrow> struct \<Rightarrow> string \<Rightarrow> val" where
  "resolvedValue f ta k =
     (case f k of None \<Rightarrow> getProp ta k | Some fk \<Rightarrow> payload (fk (getProp ta k)))"

definition returnsSome :: "val handlers \<Rightarrow> struct \<Rightarrow> string \<Rightarrow> bool" where
  "returnsSome f ta k = (case f k of None \<Rightarrow> True | Some fk \<Rightarrow> successful (fk (getProp ta k)))"

definition returnsOption :: "val handlers \<Rightarrow> struct \<Rightarrow> string \<Rightarrow> bool" where
  "returnsOption f ta k =
     (case f k of None \<Rightarrow> True
      | Some fk \<Rightarrow> fk (getProp ta k) = none \<or> successful (fk (getProp ta k)))"

definition returnsNone :: "val handlers \<Rightarrow> struct \<Rightarrow> string \<Rightarrow> bool" where
  "returnsNone f ta k = (case f k of None \<Rightarrow> False | Some fk \<Rightarrow> fk (getProp ta k) = none)"

text \<open>
  The operations one field contributes after the first, and the operations of a whole
  traversal over the ordered keys \<open>ks\<close>.
\<close>

definition stepOps :: "'fv handlers \<Rightarrow> string \<Rightarrow> effect_op list" where
  "stepOps f k = (case f k of None \<Rightarrow> [MapOp] | Some fk \<Rightarrow> [MapOp, ApOp])"

definition opLog :: "'fv handlers \<Rightarrow> string list \<Rightarrow> effect_op list" where
  "opLog f ks = MapOp # concat (map (stepOps f) (drop 1 ks))"

definition fieldsWithHandler :: "'fv handlers \<Rightarrow> struct \<Rightarrow> nat" where
  "fieldsWithHandler f ta = length (filter (\<lambda>kv. f (fst kv) \<noteq> None) ta)"

definition fieldsWithoutHandler :: "'fv handlers \<Rightarrow> struct \<Rightarrow> nat" where
  "fieldsWithoutHandler f ta = length (filter (\<lambda>kv. f (fst kv) = None) ta)"

text \<open>
  Example inputs: handlers for \<open>a\<close> and \<open>b\<close> in the manner of the repository's test
  of \<open>traverseS\<close>, a handler map that covers \<open>b\<close> only, and one whose handler for
  \<open>b\<close> returns \<open>none\<close>.
\<close>

definition exHandlers :: "val handlers" where
  "exHandlers k =
     (if k = ''a'' then Some (\<lambda>v. case v of VNum n \<Rightarrow> (if n \<le> 2 then some (VNum (n + 1)) else none) | _ \<Rightarrow> none)
      else if k = ''b'' then Some (\<lambda>v. case v of VStr s \<Rightarrow> (if length s \<le> 2 then some (VNum (int (length s))) else none) | _ \<Rightarrow> none)
      else None)"

definition onlyB :: "val handlers" where
  "onlyB k = (if k = ''b'' then exHandlers ''b'' else None)"

definition failB :: "val handlers" where
  "failB k = (if k = ''b'' then Some (\<lambda>v. none) else None)"

definition abcStruct :: struct where
  "abcStruct = [(''a'', VNum 1), (''b'', VStr ''b''), (''c'', VStr ''abc'')]"

definition gapStruct :: struct where
  "gapStruct = [(''a'', VNum 1), (''b'', VStr ''b''), (''c'', VNum 2)]"

definition nullStruct :: struct where
  "nullStruct = [(''a'', VNull), (''b'', VNum 1), (''c'', VNull)]"

section \<open>Vocabulary for the claims about compactS\<close>

text \<open>
  The fields that a loop of assignments carries over from a struct into a new object:
  all but a field named \<open>__proto__\<close>.
\<close>

definition assignable :: "(string \<times> 'v) list \<Rightarrow> (string \<times> 'v) list" where
  "assignable r = filter (\<lambda>kv. fst kv \<noteq> ''__proto__'') r"





text \<open>Example inputs for \<open>compactS\<close>, \<open>unCompact\<close> and the semigroup.\<close>

definition protoNumbers :: struct where
  "protoNumbers = [(''__proto__'', VNum 1), (''a'', VNum 2)]"


definition nullableStruct :: struct where
  "nullableStruct =
     [(''foo'', VNum 123), (''bar'', VUndefined), (''baz'', VStr ''abc''), (''qux'', VNull)]"

definition shapesStruct :: struct where
  "shapesStruct =
     [(''n'', VObj [(''_tag'', VStr ''None''), (''value'', VNum 5), (''x'', VNum 1)] VNull),
      (''s'', VObj [(''_tag'', VStr ''Some''), (''x'', VNum 1)] (VObj [(''value'', VNum 7)] VNull)),
      (''t'', VObj [(''_tag'', VStr ''Some''), (''value'', VNum 1), (''extra'', VNum 2)] VNull),
      (''u'', VNum 3)]"

definition fooBar :: struct where
  "fooBar = [(''foo'', VNum 123), (''bar'', VStr ''456'')]"

definition barOnly :: struct where
  "barOnly = [(''bar'', VStr ''123'')]"

section \<open>Objects with identity: the store\<close>

text \<open>
  Whether an operation writes into the object it was given, and whether the object it
  returns is a new one, cannot be read off values. For these questions the structs live
  in a store: an address is an index into the list of the objects allocated so far, the
  object at an address is its list of own properties, and an operation takes the store
  and returns the new one. Allocation appends to the store. The values of the fields
  remain plain values: no operation writes into a field's value.
\<close>

type_synonym addr = nat

type_synonym store = "struct list"

definition ownProps :: "store \<Rightarrow> addr \<Rightarrow> struct" where
  "ownProps st a = (if a < length st then st ! a else [])"

text \<open>An object literal: \<open>{}\<close>, or a literal with its properties.\<close>

definition newObject :: "struct \<Rightarrow> store \<Rightarrow> addr \<times> store" where
  "newObject props st = (length st, st @ [props])"

text \<open>\<open>o[k] = v\<close>, \<open>delete o[k]\<close>, and \<open>target[k] = source[k]\<close>.\<close>

definition writeProp :: "addr \<Rightarrow> string \<Rightarrow> val \<Rightarrow> store \<Rightarrow> store" where
  "writeProp a k v st = st[a := assignProp k v (ownProps st a)]"

definition removeProp :: "addr \<Rightarrow> string \<Rightarrow> store \<Rightarrow> store" where
  "removeProp a k st = st[a := filter (\<lambda>kv. fst kv \<noteq> k) (ownProps st a)]"

definition copyProp :: "addr \<Rightarrow> addr \<Rightarrow> string \<Rightarrow> store \<Rightarrow> store" where
  "copyProp target source k st = writeProp target k (getProp (ownProps st source) k) st"

text \<open>
  \<open>Object.assign(target, source)\<close> assigns the own properties of the source to the
  target, one after the other; what the target inherits is carried next to the store.
\<close>

definition assignStep_st :: "addr \<Rightarrow> addr \<Rightarrow> bool \<times> store \<Rightarrow> string \<Rightarrow> bool \<times> store" where
  "assignStep_st target source hst k =
     (let written = assignStep (ownProps (snd hst) target, fst hst)
                      (k, getProp (ownProps (snd hst) source) k)
      in (snd written, (snd hst)[target := fst written]))"

definition objectAssign :: "addr \<Rightarrow> addr \<Rightarrow> bool \<times> store \<Rightarrow> bool \<times> store" where
  "objectAssign target source hst =
     foldl (assignStep_st target source) hst (keysOf (ownProps (snd hst) source))"

section \<open>The operations on the store\<close>

text \<open>
  \<open>pick\<close>: \<open>const o = {}; for (const k of ks) { o[k] = x[k] }; return o\<close>. The
  keys come from the caller, who can name one twice, so what \<open>o\<close> inherits is
  carried along as in \<open>Object.assign\<close>.
\<close>

definition pick_st :: "string list \<Rightarrow> addr \<Rightarrow> store \<Rightarrow> addr \<times> store" where
  "pick_st ks x st =
     (let (out, st1) = newObject [] st
      in (out, snd (foldl (assignStep_st out x) (True, st1) ks)))"

text \<open>
  \<open>omit\<close>, first revision: \<open>const y = { ...x }; for (const k of ks) { delete y[k] };
  return y\<close>. Later revisions: \<open>const result = {}\<close>, then every key of
  \<open>Object.keys(obj)\<close> that is not among \<open>ks\<close> is copied.
\<close>

definition omit_st :: "string list \<Rightarrow> addr \<Rightarrow> store \<Rightarrow> addr \<times> store" where
  "omit_st ks x st =
     (let (y, st1) = newObject (assign [] (ownProps st x)) st
      in (y, foldl (\<lambda>s k. removeProp y k s) st1 ks))"

definition omit2_st :: "string list \<Rightarrow> addr \<Rightarrow> store \<Rightarrow> addr \<times> store" where
  "omit2_st ks obj st =
     (let (result, st1) = newObject [] st
      in (result, foldl (\<lambda>s key. if key \<notin> set ks then copyProp result obj key s else s)
                    st1 (keysOf (ownProps st1 obj))))"

text \<open>
  \<open>unCompact\<close>: \<open>const ks = Object.keys(a); const ops = {};
  for (const key of ks) { ops[key] = fromNullable(a[key]) }; return ops\<close>.
\<close>

definition unCompact_st :: "addr \<Rightarrow> store \<Rightarrow> addr \<times> store" where
  "unCompact_st a st =
     (let ks = keysOf (ownProps st a);
          (ops, st1) = newObject [] st
      in (ops, foldl (\<lambda>s key. writeProp ops key (fromNullable (getProp (ownProps s a) key)) s)
                 st1 ks))"

text \<open>
  Modelled from the spec: \<open>ReadonlyRecord.mapWithIndex\<close>, not among the sources. The
  engine applies the handler to every own field and reconstructs a fresh struct object,
  never mutating the input. \<open>evolve\<close> calls it with
  \<open>(k, r) => { const fk = f[k]; return fk ? fk(r) : r }\<close>.
\<close>

definition mapWithIndex_st ::
  "(string \<Rightarrow> val \<Rightarrow> val) \<Rightarrow> addr \<Rightarrow> store \<Rightarrow> addr \<times> store" where
  "mapWithIndex_st f r st =
     (let (out, st1) = newObject [] st
      in (out, foldl (\<lambda>s k. writeProp out k (f k (getProp (ownProps s r) k)) s)
                 st1 (keysOf (ownProps st1 r))))"

definition evolve_st :: "(string \<Rightarrow> (val \<Rightarrow> val) option) \<Rightarrow> addr \<Rightarrow> store \<Rightarrow> addr \<times> store" where
  "evolve_st f a st =
     mapWithIndex_st (\<lambda>k r. case f k of Some fk \<Rightarrow> fk r | None \<Rightarrow> r) a st"

text \<open>
  \<open>getAssignSemigroup().concat\<close>:
  \<open>(second) => (first) => Object.assign({}, first, second)\<close>.
\<close>

definition concat_st :: "addr \<Rightarrow> addr \<Rightarrow> store \<Rightarrow> addr \<times> store" where
  "concat_st second first st =
     (let (target, st1) = newObject [] st
      in (target, snd (objectAssign target second (objectAssign target first (True, st1)))))"

text \<open>
  Modelled from the spec: \<open>ReadonlyRecord.partition\<close> and
  \<open>ReadonlyRecord.filterMap\<close> on the store, each building new records: every operation
  allocates and returns fresh structs. \<open>compactS\<close> is
  \<open>const { left, right } = R.partition(isOption)(r);
  return { ...left, ...pipe(right, R.filterMap(identity)) }\<close>.
\<close>

definition partitionR_st :: "(val \<Rightarrow> bool) \<Rightarrow> addr \<Rightarrow> store \<Rightarrow> (addr \<times> addr) \<times> store" where
  "partitionR_st p r st =
     (let (left, st1) = newObject [] st;
          (right, st2) = newObject [] st1
      in ((left, right),
          foldl (\<lambda>s k. let a = getProp (ownProps s r) k
                        in if p a then writeProp right k a s else writeProp left k a s)
            st2 (keysOf (ownProps st2 r))))"

definition filterMapR_st :: "(val \<Rightarrow> val) \<Rightarrow> addr \<Rightarrow> store \<Rightarrow> addr \<times> store" where
  "filterMapR_st f r st =
     (let (out, st1) = newObject [] st
      in (out,
          foldl (\<lambda>s k. let ob = f (getProp (ownProps s r) k)
                        in if lookupChain ob ''_tag'' = Some (VStr ''Some'')
                           then writeProp out k (payload ob) s else s)
            st1 (keysOf (ownProps st1 r))))"

definition compactS_st :: "addr \<Rightarrow> store \<Rightarrow> addr \<times> store" where
  "compactS_st r st =
     (let ((left, right), st1) = partitionR_st isOption r st;
          (fm, st2) = filterMapR_st (\<lambda>a. a) right st1
      in newObject (assign (assign [] (ownProps st2 left)) (ownProps st2 fm)) st2)"

text \<open>
  Modelled from the spec: \<open>ReadonlyRecord.partitionMapWithIndex\<close> on the store,
  building the two records \<open>left\<close> and \<open>right\<close> anew; when the callback
  throws or what it returns has no tag to read, the walk stops there. \<open>parse\<close>
  returns \<open>right(parsed)\<close> or \<open>left(failed)\<close>.
\<close>

fun partitionMapLoop_st ::
  "(string \<Rightarrow> val \<Rightarrow> js_error + val) \<Rightarrow> addr \<Rightarrow> addr \<Rightarrow> addr \<Rightarrow> string list \<Rightarrow> store
     \<Rightarrow> js_error option \<times> store" where
  "partitionMapLoop_st f r left right [] s = (None, s)"
| "partitionMapLoop_st f r left right (k # ks) s =
     (case andThen (f k (getProp (ownProps s r) k)) fileEither of
        Inl err \<Rightarrow> (Some err, s)
      | Inr (Inl x) \<Rightarrow> partitionMapLoop_st f r left right ks (writeProp left k x s)
      | Inr (Inr x) \<Rightarrow> partitionMapLoop_st f r left right ks (writeProp right k x s))"

definition partitionMapWithIndex_st ::
  "(string \<Rightarrow> val \<Rightarrow> js_error + val) \<Rightarrow> addr \<Rightarrow> store
     \<Rightarrow> (js_error + addr \<times> addr) \<times> store" where
  "partitionMapWithIndex_st f r st =
     (let (left, st1) = newObject [] st;
          (right, st2) = newObject [] st1;
          (thrown, st3) = partitionMapLoop_st f r left right (keysOf (ownProps st2 r)) st2
      in (case thrown of Some err \<Rightarrow> Inl err | None \<Rightarrow> Inr (left, right), st3))"

definition parse_st :: "parsers \<Rightarrow> addr \<Rightarrow> store \<Rightarrow> (js_error + (addr + addr)) \<times> store" where
  "parse_st f fa st =
     (let (records, st1) = partitionMapWithIndex_st (parseField f) fa st
      in (case records of
            Inl err \<Rightarrow> Inl err
          | Inr (failed, parsed) \<Rightarrow>
              Inr (if length (keysOf (ownProps st1 parsed)) = length (keysOf (ownProps st1 fa))
                   then Inr parsed else Inl failed),
          st1))"

text \<open>
  Modelled from the spec: \<open>Option.fromPredicate\<close> and
  \<open>ReadonlyRecord.traverseWithIndex(StringOrd)(OptionApplicative)\<close>, not among the
  sources. The traversal goes through the optional effect in the order of the field
  names; any failing field makes the entire result an absence marker, with no partial
  struct; when none fails the result is a presence marker wrapping a newly allocated
  struct with the resolved values. \<open>refine\<close> calls it with
  \<open>(k, v) => { const p = predicates[k];
  return p !== undefined ? fromPredicate(p)(v) : some(v) }\<close>.
\<close>

definition fromPredicate :: "(val \<Rightarrow> bool) \<Rightarrow> val \<Rightarrow> val" where
  "fromPredicate p a = (if p a then some a else none)"

definition traverseWithIndexOption_st ::
  "(string \<Rightarrow> val \<Rightarrow> val) \<Rightarrow> addr \<Rightarrow> store \<Rightarrow> addr option \<times> store" where
  "traverseWithIndexOption_st f ta st =
     (let effects = map (\<lambda>k. (k, f k (getProp (ownProps st ta) k)))
                      (keys StringOrd (ownProps st ta))
      in if list_all (\<lambda>ke. lookupChain (snd ke) ''_tag'' \<noteq> Some (VStr ''None'')) effects
         then (let (out, st1) = newObject (map (\<lambda>ke. (fst ke, payload (snd ke))) effects) st
               in (Some out, st1))
         else (None, st))"

definition refine_st ::
  "(string \<Rightarrow> (val \<Rightarrow> bool) option) \<Rightarrow> addr \<Rightarrow> store \<Rightarrow> addr option \<times> store" where
  "refine_st predicates fa st =
     traverseWithIndexOption_st
       (\<lambda>k v. case predicates k of Some p \<Rightarrow> fromPredicate p v | None \<Rightarrow> some v) fa st"

text \<open>
  \<open>mapAt\<close> is \<open>mapAtE(IDFunctor)\<close>, which maps
  \<open>({ [prop]: input, ...rest }) => ({ [prop]: f(input), ...rest })\<close> over its argument:
  the rest pattern builds an object with the other own properties, the literal builds the
  result. \<open>modifyAt\<close> is \<open>mapAt\<close>, and \<open>updateAt(prop, ap)\<close> is
  \<open>modifyAt(prop, constant(ap))\<close>.

  Modelled from the spec: the \<open>Functor\<close> instance of \<open>Identity\<close>, not among the
  sources: the identity effect, whose \<open>map(fa, f)\<close> is \<open>f(fa)\<close>.
\<close>

definition mapAt_st :: "string \<Rightarrow> (val \<Rightarrow> val) \<Rightarrow> addr \<Rightarrow> store \<Rightarrow> addr \<times> store" where
  "mapAt_st prop f a st =
     (let input = getProp (ownProps st a) prop;
          (rest, st1) = newObject (filter (\<lambda>kv. fst kv \<noteq> prop) (ownProps st a)) st
      in newObject (assign [(prop, f input)] (ownProps st1 rest)) st1)"

definition updateAt_st :: "string \<Rightarrow> val \<Rightarrow> addr \<Rightarrow> store \<Rightarrow> addr \<times> store" where
  "updateAt_st prop v a st = mapAt_st prop (\<lambda>old. v) a st"

text \<open>
  Modelled from the spec: \<open>Identity.apS\<close>, not among the sources, of which \<open>insertAt\<close>
  is an alias. \<open>insertAt(field, value)\<close> is a direct object-literal operation that
  returns a newly allocated struct with the field added:
  \<open>Object.assign({}, obj, { [prop]: value })\<close>.
\<close>

definition insertAt_st :: "string \<Rightarrow> val \<Rightarrow> addr \<Rightarrow> store \<Rightarrow> addr \<times> store" where
  "insertAt_st prop value obj st =
     (let (target, st1) = newObject [] st;
          (lit, st2) = newObject [(prop, value)] st1
      in (target, snd (objectAssign target lit (objectAssign target obj (True, st2)))))"

text \<open>
  \<open>renameAt(from, to)\<close> is \<open>({ [from]: val, ...rest }) => ({ [to]: val, ...rest })\<close>.
\<close>

definition renameAt_st :: "string \<Rightarrow> string \<Rightarrow> addr \<Rightarrow> store \<Rightarrow> addr \<times> store" where
  "renameAt_st from to a st =
     (let v = getProp (ownProps st a) from;
          (rest, st1) = newObject (filter (\<lambda>kv. fst kv \<noteq> from) (ownProps st a)) st
      in newObject (assign [(to, v)] (ownProps st1 rest)) st1)"

section \<open>traverseS on the store\<close>

text \<open>
  The capability on the store. The functions handed to \<open>F.map\<close> are the closures of
  \<open>traverseS\<close>: \<open>(r) => ({ [ks[0]]: r })\<close>, which allocates;
  \<open>(r) => (b) => { r[ks[i]] = b; return r }\<close> and
  \<open>(r) => { r[ks[i]] = ta[ks[i]]; return r }\<close>, which write into the struct \<open>r\<close> they
  are given. An effect that holds partial structs holds their addresses; \<open>held\<close> gives
  them.
\<close>

record ('fv, 'fs, 'ff) ApplySt =
  st_map_seed :: "(val \<Rightarrow> store \<Rightarrow> addr \<times> store) \<Rightarrow> 'fv \<Rightarrow> store \<Rightarrow> (js_error + 'fs) \<times> store"
  st_map_fn :: "(addr \<Rightarrow> val \<Rightarrow> store \<Rightarrow> addr \<times> store) \<Rightarrow> 'fs \<Rightarrow> store \<Rightarrow> (js_error + 'ff) \<times> store"
  st_map_acc :: "(addr \<Rightarrow> store \<Rightarrow> addr \<times> store) \<Rightarrow> 'fs \<Rightarrow> store \<Rightarrow> (js_error + 'fs) \<times> store"
  st_ap :: "'fv \<Rightarrow> 'ff \<Rightarrow> store \<Rightarrow> (js_error + 'fs) \<times> store"
  st_as_any :: "val \<Rightarrow> 'fv"
  held :: "'fs \<Rightarrow> addr set"

definition seedFn :: "string \<Rightarrow> val \<Rightarrow> store \<Rightarrow> addr \<times> store" where
  "seedFn k0 r st = newObject [(k0, r)] st"

definition setFn :: "string \<Rightarrow> addr \<Rightarrow> val \<Rightarrow> store \<Rightarrow> addr \<times> store" where
  "setFn k r b st = (r, writeProp r k b st)"

definition keepFn :: "addr \<Rightarrow> string \<Rightarrow> addr \<Rightarrow> store \<Rightarrow> addr \<times> store" where
  "keepFn ta k r st = (r, copyProp r ta k st)"

definition traverseStep_st ::
  "('fv, 'fs, 'ff) ApplySt \<Rightarrow> 'fv handlers \<Rightarrow> addr \<Rightarrow> 'fs \<Rightarrow> string \<Rightarrow> store
     \<Rightarrow> (js_error + 'fs) \<times> store" where
  "traverseStep_st F f ta fr k st =
     (case f k of
        Some fk \<Rightarrow>
          (let fa = fk (getProp (ownProps st ta) k)
           in case st_map_fn F (setFn k) fr st of
                (Inl e, st1) \<Rightarrow> (Inl e, st1)
              | (Inr ff, st1) \<Rightarrow> st_ap F fa ff st1)
      | None \<Rightarrow> st_map_acc F (keepFn ta k) fr st)"

fun traverseLoop_st ::
  "('fv, 'fs, 'ff) ApplySt \<Rightarrow> 'fv handlers \<Rightarrow> addr \<Rightarrow> 'fs \<Rightarrow> string list \<Rightarrow> store
     \<Rightarrow> (js_error + 'fs) \<times> store" where
  "traverseLoop_st F f ta fr [] st = (Inr fr, st)"
| "traverseLoop_st F f ta fr (k # ks) st =
     (case traverseStep_st F f ta fr k st of
        (Inl e, st1) \<Rightarrow> (Inl e, st1)
      | (Inr fr', st1) \<Rightarrow> traverseLoop_st F f ta fr' ks st1)"

definition traverseS_st ::
  "Ord \<Rightarrow> ('fv, 'fs, 'ff) ApplySt \<Rightarrow> 'fv handlers \<Rightarrow> addr \<Rightarrow> store
     \<Rightarrow> (js_error + 'fs) \<times> store" where
  "traverseS_st cmp F f ta st =
     (let ks = keys cmp (ownProps st ta);
          k0 = firstKey ks;
          seed = (case f k0 of
                    Some fk \<Rightarrow> fk (getProp (ownProps st ta) k0)
                  | None \<Rightarrow> st_as_any F (getProp (ownProps st ta) k0))
      in case st_map_seed F (seedFn k0) seed st of
           (Inl e, st1) \<Rightarrow> (Inl e, st1)
         | (Inr fr, st1) \<Rightarrow> traverseLoop_st F f ta fr (drop 1 ks) st1)"

text \<open>\<open>Option.Apply\<close> on the store.\<close>

definition optionMap_st ::
  "(val \<Rightarrow> store \<Rightarrow> addr \<times> store) \<Rightarrow> val \<Rightarrow> store \<Rightarrow> (js_error + addr option) \<times> store" where
  "optionMap_st g fa st =
     (case isNone fa of
        Inl e \<Rightarrow> (Inl e, st)
      | Inr n \<Rightarrow>
          if n then (Inr None, st)
          else (case readProp fa ''value'' of
                  Inl e \<Rightarrow> (Inl e, st)
                | Inr v \<Rightarrow> (let (r, st1) = g v st in (Inr (Some r), st1))))"

definition optionAp_st ::
  "val \<Rightarrow> (val \<Rightarrow> store \<Rightarrow> addr \<times> store) option \<Rightarrow> store \<Rightarrow> (js_error + addr option) \<times> store" where
  "optionAp_st fa fab st =
     (case fab of
        None \<Rightarrow> (Inr None, st)
      | Some h \<Rightarrow> optionMap_st h fa st)"

definition OptionApplySt ::
  "(val, addr option, (val \<Rightarrow> store \<Rightarrow> addr \<times> store) option) ApplySt" where
  "OptionApplySt =
     \<lparr> st_map_seed = optionMap_st,
       st_map_fn = (\<lambda>g fr st. (Inr (map_option g fr), st)),
       st_map_acc = (\<lambda>g fr st. case fr of
                        None \<Rightarrow> (Inr None, st)
                      | Some r \<Rightarrow> (let (r', st1) = g r st in (Inr (Some r'), st1))),
       st_ap = optionAp_st,
       st_as_any = (\<lambda>v. v),
       held = set_option \<rparr>"

section \<open>Vocabulary for the claim about mutation\<close>

text \<open>
  \<open>keepsBelow n st st'\<close>: the store has not shrunk and the objects at the addresses
  below \<open>n\<close> are the same. \<open>unmutated st st'\<close>: every object of \<open>st\<close> has the same
  own fields with the same values in \<open>st'\<close>. \<open>newlyAllocated st st' a\<close>: the address
  \<open>a\<close> was allocated between \<open>st\<close> and \<open>st'\<close>, so it is the address of no object
  of \<open>st\<close>. A call is safe when it leaves every object of the store it started from
  unmutated and every struct it returns is newly allocated; \<open>plain\<close>, \<open>optional\<close>,
  \<open>either\<close> and \<open>effect\<close> give the structs returned inside the result.
\<close>

definition keepsBelow :: "nat \<Rightarrow> store \<Rightarrow> store \<Rightarrow> bool" where
  "keepsBelow n st st' \<longleftrightarrow> length st \<le> length st' \<and> take n st' = take n st"

definition safeResult :: "store \<Rightarrow> addr \<times> store \<Rightarrow> bool" where
  "safeResult st res \<longleftrightarrow>
     keepsBelow (length st) st (snd res) \<and> length st \<le> fst res \<and> fst res < length (snd res)"

definition unmutated :: "store \<Rightarrow> store \<Rightarrow> bool" where
  "unmutated st st' \<longleftrightarrow> (\<forall>a < length st. ownProps st' a = ownProps st a)"

definition newlyAllocated :: "store \<Rightarrow> store \<Rightarrow> addr \<Rightarrow> bool" where
  "newlyAllocated st st' a \<longleftrightarrow> length st \<le> a \<and> a < length st'"

definition safeCall :: "store \<Rightarrow> addr set \<times> store \<Rightarrow> bool" where
  "safeCall st res \<longleftrightarrow>
     unmutated st (snd res) \<and> (\<forall>a \<in> fst res. newlyAllocated st (snd res) a)"

definition plain :: "addr \<times> store \<Rightarrow> addr set \<times> store" where
  "plain res = ({fst res}, snd res)"

definition optional :: "addr option \<times> store \<Rightarrow> addr set \<times> store" where
  "optional res = (set_option (fst res), snd res)"

definition either :: "(js_error + (addr + addr)) \<times> store \<Rightarrow> addr set \<times> store" where
  "either res =
     ((case fst res of Inl err \<Rightarrow> {} | Inr (Inl a) \<Rightarrow> {a} | Inr (Inr a) \<Rightarrow> {a}), snd res)"

definition effect :: "('fv, 'fs, 'ff) ApplySt \<Rightarrow> (js_error + 'fs) \<times> store \<Rightarrow> addr set \<times> store" where
  "effect F res = ((case fst res of Inl e \<Rightarrow> {} | Inr fr \<Rightarrow> held F fr), snd res)"

text \<open>
  The result of \<open>traverseS\<close> on the store agrees with its result on values, under the
  optional effect: the same error, the same absence, or the presence of a struct
  allocated at the first free address and holding the same fields.
\<close>

definition agrees :: "store \<Rightarrow> js_error + struct option \<Rightarrow> (js_error + addr option) \<times> store \<Rightarrow> bool" where
  "agrees st res sres =
     (case res of
        Inl e \<Rightarrow> fst sres = Inl e
      | Inr None \<Rightarrow> fst sres = Inr None
      | Inr (Some r) \<Rightarrow> sres = (Inr (Some (length st)), st @ [r]))"

text \<open>
  What the traversal needs of the capability the caller supplies, the analogue of the
  applicative laws for the store: \<open>F\<close> touches the store only by running the closures
  it is handed, and hands them only structs it obtained from them. A closure is local
  above \<open>n\<close> when, given a struct allocated at or above \<open>n\<close>, it leaves the objects
  below \<open>n\<close> alone and returns a struct at or above \<open>n\<close>. \<open>okS\<close> and \<open>okF\<close> are
  the invariants of the two kinds of effect.
\<close>

definition local0 :: "nat \<Rightarrow> (val \<Rightarrow> store \<Rightarrow> addr \<times> store) \<Rightarrow> bool" where
  "local0 n g \<longleftrightarrow>
     (\<forall>v s. n \<le> length s \<longrightarrow>
        n \<le> fst (g v s) \<and> fst (g v s) < length (snd (g v s)) \<and> keepsBelow n s (snd (g v s)))"

definition local1 :: "nat \<Rightarrow> (addr \<Rightarrow> store \<Rightarrow> addr \<times> store) \<Rightarrow> bool" where
  "local1 n g \<longleftrightarrow>
     (\<forall>r s. n \<le> r \<and> r < length s \<longrightarrow>
        n \<le> fst (g r s) \<and> fst (g r s) < length (snd (g r s)) \<and> keepsBelow n s (snd (g r s)))"

definition local2 :: "nat \<Rightarrow> (addr \<Rightarrow> val \<Rightarrow> store \<Rightarrow> addr \<times> store) \<Rightarrow> bool" where
  "local2 n g \<longleftrightarrow> (\<forall>b. local1 n (\<lambda>r. g r b))"

definition neutral ::
  "('fv, 'fs, 'ff) ApplySt \<Rightarrow> (nat \<Rightarrow> store \<Rightarrow> 'fs \<Rightarrow> bool) \<Rightarrow> (nat \<Rightarrow> store \<Rightarrow> 'ff \<Rightarrow> bool) \<Rightarrow> bool" where
  "neutral F okS okF \<longleftrightarrow>
     (\<forall>n g x s. local0 n g \<and> n \<le> length s \<longrightarrow>
        keepsBelow n s (snd (st_map_seed F g x s))
        \<and> (\<forall>fr. fst (st_map_seed F g x s) = Inr fr \<longrightarrow> okS n (snd (st_map_seed F g x s)) fr))
   \<and> (\<forall>n g fr s. local2 n g \<and> okS n s fr \<and> n \<le> length s \<longrightarrow>
        keepsBelow n s (snd (st_map_fn F g fr s))
        \<and> (\<forall>ff. fst (st_map_fn F g fr s) = Inr ff \<longrightarrow> okF n (snd (st_map_fn F g fr s)) ff))
   \<and> (\<forall>n g fr s. local1 n g \<and> okS n s fr \<and> n \<le> length s \<longrightarrow>
        keepsBelow n s (snd (st_map_acc F g fr s))
        \<and> (\<forall>fr'. fst (st_map_acc F g fr s) = Inr fr' \<longrightarrow> okS n (snd (st_map_acc F g fr s)) fr'))
   \<and> (\<forall>n x ff s. okF n s ff \<and> n \<le> length s \<longrightarrow>
        keepsBelow n s (snd (st_ap F x ff s))
        \<and> (\<forall>fr. fst (st_ap F x ff s) = Inr fr \<longrightarrow> okS n (snd (st_ap F x ff s)) fr))
   \<and> (\<forall>n s fr a. okS n s fr \<and> a \<in> held F fr \<longrightarrow> n \<le> a \<and> a < length s)"

definition optionOkS :: "nat \<Rightarrow> store \<Rightarrow> addr option \<Rightarrow> bool" where
  "optionOkS n s fr \<longleftrightarrow> (\<forall>a \<in> set_option fr. n \<le> a \<and> a < length s)"

definition optionOkF :: "nat \<Rightarrow> store \<Rightarrow> (val \<Rightarrow> store \<Rightarrow> addr \<times> store) option \<Rightarrow> bool" where
  "optionOkF n s ff \<longleftrightarrow>
     (\<forall>h \<in> set_option ff. \<forall>v.
        n \<le> fst (h v s) \<and> fst (h v s) < length (snd (h v s)) \<and> keepsBelow n s (snd (h v s)))"

section \<open>Basic facts about property writes\<close>

lemma setProp_update: "setProp k v ps = AList.update k v ps"
  by (induction ps) auto

lemma map_of_setProp: "map_of (setProp k v ps) = (map_of ps)(k \<mapsto> v)"
  by (simp add: setProp_update update_conv')

lemma keys_setProp_old:
  "k \<in> fst ` set ps \<Longrightarrow> map fst (setProp k v ps) = map fst ps"
  by (induction ps) force+

lemma set_keys_setProp: "fst ` set (setProp k v ps) = insert k (fst ` set ps)"
  by (simp add: setProp_update dom_update)

lemma distinct_setProp:
  "distinct (map fst ps) \<Longrightarrow> distinct (map fst (setProp k v ps))"
  by (simp add: setProp_update distinct_update)

lemma assignProp_plain: "k \<noteq> ''__proto__'' \<Longrightarrow> assignProp k v ps = setProp k v ps"
  by (simp add: assignProp_def)

lemma assignProp_proto_fresh:
  "''__proto__'' \<notin> fst ` set ps \<Longrightarrow> assignProp ''__proto__'' v ps = ps"
  by (simp add: assignProp_def keysOf_def)

section \<open>parse: the two records\<close>

lemma lefts_Nil [simp]: "lefts f [] = []"
  by (simp add: lefts_def map_filter_simps)

lemma rights_Nil [simp]: "rights f [] = []"
  by (simp add: rights_def map_filter_simps)

lemma lefts_Cons:
  "lefts f ((k, v) # r) = (case f k v of Inl e \<Rightarrow> (k, e) # lefts f r | Inr a \<Rightarrow> lefts f r)"
  by (simp add: lefts_def map_filter_simps split: sum.splits)

lemma rights_Cons:
  "rights f ((k, v) # r) = (case f k v of Inl e \<Rightarrow> rights f r | Inr a \<Rightarrow> (k, a) # rights f r)"
  by (simp add: rights_def map_filter_simps split: sum.splits)

lemma map_of_fresh: "k \<notin> fst ` set r \<Longrightarrow> map_of r k = None"
  by (simp add: map_of_eq_None_iff)

lemma map_of_lefts:
  "distinct (map fst r) \<Longrightarrow> map_of (lefts f r) k =
     (case map_of r k of None \<Rightarrow> None
      | Some v \<Rightarrow> (case f k v of Inl e \<Rightarrow> Some e | Inr a \<Rightarrow> None))"
proof (induction r)
  case Nil
  then show ?case by simp
next
  case (Cons kv r)
  obtain k' v' where kv: "kv = (k', v')" by (cases kv)
  from Cons.prems have fresh: "map_of r k' = None" and d: "distinct (map fst r)"
    by (simp_all add: kv map_of_fresh)
  show ?case
    using Cons.IH[OF d] fresh
    by (cases "f k' v'") (simp_all add: kv lefts_Cons)
qed

lemma map_of_rights:
  "distinct (map fst r) \<Longrightarrow> map_of (rights f r) k =
     (case map_of r k of None \<Rightarrow> None
      | Some v \<Rightarrow> (case f k v of Inl e \<Rightarrow> None | Inr a \<Rightarrow> Some a))"
proof (induction r)
  case Nil
  then show ?case by simp
next
  case (Cons kv r)
  obtain k' v' where kv: "kv = (k', v')" by (cases kv)
  from Cons.prems have fresh: "map_of r k' = None" and d: "distinct (map fst r)"
    by (simp_all add: kv map_of_fresh)
  show ?case
    using Cons.IH[OF d] fresh
    by (cases "f k' v'") (simp_all add: kv rights_Cons)
qed

lemma length_lefts_rights: "length (lefts f r) + length (rights f r) = length r"
  by (induction r) (auto simp: lefts_Cons rights_Cons split: sum.splits)

lemma setProp_append_new:
  "k \<notin> fst ` set ps \<Longrightarrow> setProp k v ps = ps @ [(k, v)]"
  by (induction ps) auto

lemma fileEither_left [simp]: "fileEither (E_left e) = Inr (Inl e)"
  by (simp add: fileEither_def isLeft_def E_left_def andThen_def)

lemma fileEither_right [simp]: "fileEither (E_right a) = Inr (Inr a)"
  by (simp add: fileEither_def isLeft_def E_right_def andThen_def)

lemma parseField_own:
  "f k = nullPrototype own k \<Longrightarrow>
     andThen (parseField f k v) fileEither = Inr (fieldResult own k v)"
  by (simp add: parseField_def nullPrototype_def parserOf_def fieldResult_def andThen_def
      split: option.splits sum.splits)

lemma partitionMapLoop_closed:
  assumes "distinct (map fst r)" and "''__proto__'' \<notin> fst ` set r"
    and "\<forall>kv \<in> set r. andThen (g (fst kv) (snd kv)) fileEither = Inr (h (fst kv) (snd kv))"
    and "fst ` set l \<inter> fst ` set r = {}" and "fst ` set p \<inter> fst ` set r = {}"
  shows "partitionMapLoop g (l, p) r = Inr (l @ lefts h r, p @ rights h r)"
  using assms
proof (induction r arbitrary: l p)
  case Nil
  then show ?case by simp
next
  case (Cons kv r)
  obtain k v where kv: "kv = (k, v)" by (cases kv)
  from Cons.prems have kl: "k \<notin> fst ` set l" and kp: "k \<notin> fst ` set p"
    and kr: "k \<notin> fst ` set r" and d: "distinct (map fst r)"
    and np: "''__proto__'' \<notin> fst ` set r" and kn: "k \<noteq> ''__proto__''"
    and gh: "\<forall>kv \<in> set r. andThen (g (fst kv) (snd kv)) fileEither = Inr (h (fst kv) (snd kv))"
    and g0: "andThen (g k v) fileEither = Inr (h k v)"
    and lr: "fst ` set l \<inter> fst ` set r = {}" and pr: "fst ` set p \<inter> fst ` set r = {}"
    by (auto simp: kv)
  have step: "partitionMapStep g (l, p) (k, v) =
      Inr (case h k v of Inl x \<Rightarrow> (l @ [(k, x)], p) | Inr x \<Rightarrow> (l, p @ [(k, x)]))"
    using g0 kl kp kn
    by (cases "g k v"; cases "h k v")
       (simp_all add: partitionMapStep_def andThen_def assignProp_plain setProp_append_new)
  show ?case
  proof (cases "h k v")
    case (Inl e)
    have "fst ` set (l @ [(k, e)]) \<inter> fst ` set r = {}" using lr kr by auto
    from Cons.IH[OF d np gh this pr] show ?thesis
      using Inl step by (simp add: kv andThen_def lefts_Cons rights_Cons)
  next
    case (Inr a)
    have "fst ` set (p @ [(k, a)]) \<inter> fst ` set r = {}" using pr kr by auto
    from Cons.IH[OF d np gh lr this] show ?thesis
      using Inr step by (simp add: kv andThen_def lefts_Cons rights_Cons)
  qed
qed

lemma partitionMapWithIndex_eq:
  assumes "wf_struct fa" and "''__proto__'' \<notin> set (keysOf fa)" and "inheritsNothing f own fa"
  shows "partitionMapWithIndex (parseField f) fa =
           Inr (lefts (fieldResult own) fa, rights (fieldResult own) fa)"
proof -
  have "\<forall>kv \<in> set fa. andThen (parseField f (fst kv) (snd kv)) fileEither
          = Inr (fieldResult own (fst kv) (snd kv))"
    using assms(3) by (auto simp: inheritsNothing_def keysOf_def intro!: parseField_own)
  from partitionMapLoop_closed[OF _ _ this, of "[]" "[]"] assms(1,2)
  show ?thesis by (simp add: partitionMapWithIndex_def wf_struct_def keysOf_def)
qed

lemma count_vs_empty:
  "length (rights f r) = length r \<longleftrightarrow> lefts f r = []"
  using length_lefts_rights[of f r] by auto

lemma lefts_empty_iff:
  "lefts g fa = [] \<longleftrightarrow> (\<forall>kv \<in> set fa. \<not> isl (g (fst kv) (snd kv)))"
  by (induction fa) (auto simp: lefts_Cons split: sum.splits)

lemma isl_fieldResult:
  "isl (fieldResult f k v) = (case f k of None \<Rightarrow> False | Some fk \<Rightarrow> isl (fk v))"
  by (simp add: fieldResult_def split: option.splits)

lemma parsed_lookup:
  "(case map_of fa k of None \<Rightarrow> None
    | Some v \<Rightarrow> (case fieldResult f k v of Inl e \<Rightarrow> None | Inr a \<Rightarrow> Some a)) =
   (case map_of fa k of None \<Rightarrow> None
    | Some v \<Rightarrow> (case f k of None \<Rightarrow> Some v
         | Some fk \<Rightarrow> (case fk v of Inl e \<Rightarrow> None | Inr a \<Rightarrow> Some a)))"
  by (simp add: fieldResult_def split: option.splits)

lemma failed_lookup:
  "(case map_of fa k of None \<Rightarrow> None
    | Some v \<Rightarrow> (case fieldResult f k v of Inl e \<Rightarrow> Some e | Inr a \<Rightarrow> None)) =
   (case map_of fa k of None \<Rightarrow> None
    | Some v \<Rightarrow> (case f k of None \<Rightarrow> None
         | Some fk \<Rightarrow> (case fk v of Inl e \<Rightarrow> Some e | Inr a \<Rightarrow> None)))"
  by (simp add: fieldResult_def split: option.splits)

lemma keys_lefts_rights:
  "fst ` set (lefts g fa) \<union> fst ` set (rights g fa) = fst ` set fa"
proof (induction fa)
  case Nil
  then show ?case by simp
next
  case (Cons kv fa)
  obtain k v where kv: "kv = (k, v)" by (cases kv)
  from Cons.IH show ?case
    by (cases "g k v") (simp_all add: kv lefts_Cons rights_Cons)
qed

lemma parse_closed:
  assumes "wf_struct fa" and "''__proto__'' \<notin> set (keysOf fa)" and "inheritsNothing f own fa"
  shows "parse f fa = Inr (if lefts (fieldResult own) fa = []
                           then Inr (rights (fieldResult own) fa)
                           else Inl (lefts (fieldResult own) fa))"
  by (simp add: parse_def partitionMapWithIndex_eq[OF assms] andThen_def keysOf_def count_vs_empty)

section \<open>parse: the claims\<close>

text \<open>
  Away from the two names below, \<open>parse\<close> does what is claimed of it. When the struct
  has no field named \<open>__proto__\<close> and the parser map holds, under the field names of
  the struct, its own parsers and nothing inherited: the decision \<open>parse\<close> takes by
  comparing the number of parsed fields with the number of fields is the decision "the
  error map is empty".
\<close>

lemma parse_count_check_own_parsers:
  assumes "wf_struct fa" and "''__proto__'' \<notin> set (keysOf fa)" and "inheritsNothing f own fa"
  shows "parse f fa = parse_by_errors f fa"
  by (simp add: parse_def parse_by_errors_def partitionMapWithIndex_eq[OF assms] andThen_def
      keysOf_def count_vs_empty)

text \<open>
  Under the same conditions \<open>parse\<close> succeeds exactly when every field is parsed, a
  field without a parser counting as parsed with its original value. On success the
  result holds, for every field, the parser's output or the original value. On failure
  the error map is not empty and holds exactly the errors of the fields whose parser
  failed. Failures are collected, not fail-fast: the walk files every field of the
  struct under failed or parsed before the decision is taken.
\<close>

lemma parse_all_or_errors_own_parsers:
  assumes "wf_struct fa" and "''__proto__'' \<notin> set (keysOf fa)" and "inheritsNothing f own fa"
  shows "(\<exists>res. parse f fa = Inr res)
       \<and> ((\<exists>p. parse f fa = Inr (Inr p)) \<longleftrightarrow>
            (\<forall>kv \<in> set fa. case own (fst kv) of None \<Rightarrow> True | Some fk \<Rightarrow> \<not> isl (fk (snd kv))))
       \<and> (\<forall>p k. parse f fa = Inr (Inr p) \<longrightarrow> map_of p k =
            (case map_of fa k of None \<Rightarrow> None
             | Some v \<Rightarrow> (case own k of None \<Rightarrow> Some v
                 | Some fk \<Rightarrow> (case fk v of Inl e \<Rightarrow> None | Inr a \<Rightarrow> Some a))))
       \<and> (\<forall>e k. parse f fa = Inr (Inl e) \<longrightarrow> e \<noteq> [] \<and> map_of e k =
            (case map_of fa k of None \<Rightarrow> None
             | Some v \<Rightarrow> (case own k of None \<Rightarrow> None
                 | Some fk \<Rightarrow> (case fk v of Inl err \<Rightarrow> Some err | Inr a \<Rightarrow> None))))
       \<and> (\<exists>failed parsed. partitionMapWithIndex (parseField f) fa = Inr (failed, parsed)
             \<and> fst ` set failed \<union> fst ` set parsed = fst ` set fa)"
proof -
  let ?g = "fieldResult own"
  have d: "distinct (map fst fa)" using assms(1) by (simp add: wf_struct_def)
  have pm: "partitionMapWithIndex (parseField f) fa = Inr (lefts ?g fa, rights ?g fa)"
    using assms by (rule partitionMapWithIndex_eq)
  have p: "parse f fa = Inr (if lefts ?g fa = [] then Inr (rights ?g fa) else Inl (lefts ?g fa))"
    using assms by (rule parse_closed)
  have ok: "lefts ?g fa = [] \<longleftrightarrow>
      (\<forall>kv \<in> set fa. case own (fst kv) of None \<Rightarrow> True | Some fk \<Rightarrow> \<not> isl (fk (snd kv)))"
    by (simp add: lefts_empty_iff isl_fieldResult split: option.splits)
  have c0: "\<exists>res. parse f fa = Inr res" by (simp add: p)
  have c1: "(\<exists>p. parse f fa = Inr (Inr p)) \<longleftrightarrow>
            (\<forall>kv \<in> set fa. case own (fst kv) of None \<Rightarrow> True | Some fk \<Rightarrow> \<not> isl (fk (snd kv)))"
    unfolding ok[symmetric] by (simp add: p)
  have c2: "\<forall>p k. parse f fa = Inr (Inr p) \<longrightarrow> map_of p k =
            (case map_of fa k of None \<Rightarrow> None
             | Some v \<Rightarrow> (case own k of None \<Rightarrow> Some v
                 | Some fk \<Rightarrow> (case fk v of Inl e \<Rightarrow> None | Inr a \<Rightarrow> Some a)))"
    using map_of_rights[OF d, of ?g] by (simp add: p parsed_lookup split: if_splits)
  have c3: "\<forall>e k. parse f fa = Inr (Inl e) \<longrightarrow> e \<noteq> [] \<and> map_of e k =
            (case map_of fa k of None \<Rightarrow> None
             | Some v \<Rightarrow> (case own k of None \<Rightarrow> None
                 | Some fk \<Rightarrow> (case fk v of Inl err \<Rightarrow> Some err | Inr a \<Rightarrow> None)))"
    using map_of_lefts[OF d, of ?g] by (simp add: p failed_lookup split: if_splits)
  have c4: "\<exists>failed parsed. partitionMapWithIndex (parseField f) fa = Inr (failed, parsed)
             \<and> fst ` set failed \<union> fst ` set parsed = fst ` set fa"
    by (simp add: pm keys_lefts_rights)
  from c0 c1 c2 c3 c4 show ?thesis by blast
qed

lemma exParsers_inheritsNothing: "inheritsNothing exParsers exOwnParsers exStruct"
  by (simp add: inheritsNothing_def exParsers_def objectLiteral_def nullPrototype_def
      exOwnParsers_def exStruct_def keysOf_def objectPrototype_def)

lemma parse_test_of_the_repository:
  "parse exParsers exStruct = Inr (Inl [(''a'', VStr ''Not a'')])
   \<and> parse exParsers [(''a'', VNum 7), (''b'', VNum 2), (''c'', VStr ''abc'')]
       = Inr (Inl [(''a'', VStr ''Not a''), (''b'', VNum 42)])
   \<and> parse noParsers exStruct = Inr (Inr exStruct)"
  by code_simp

text \<open>
  Claim C2. \<open>parse\<close> succeeds exactly when every field is parsed, and a field without
  a parser counts as parsed with its original value. The code reads \<open>f[k]\<close> through
  the prototype chain of the parser map: for the field \<open>toString\<close> of
  \<open>{ toString: 1, a: 2 }\<close> and the parser map \<open>{}\<close>, which has no parser for it,
  it finds \<open>Object.prototype.toString\<close> and calls it. The string that returns is no
  \<open>Either\<close>, its \<open>right\<close> is \<open>undefined\<close>, and \<open>parse\<close> returns
  \<open>right({ toString: undefined, a: 2 })\<close>: the field has lost its original value.
\<close>

theorem parse_inherited_member:
  "parse noParsers toStringStruct = Inr (Inr [(''toString'', VUndefined), (''a'', VNum 2)])
   \<and> map_of toStringStruct ''toString'' = Some (VNum 1)"
  by code_simp

text \<open>
  With the parser map \<open>{}\<close>, the field \<open>__proto__\<close> meets the accessor that the
  map inherits: \<open>f['__proto__']\<close> is \<open>Object.prototype\<close>, which is truthy and
  not a function, and the call throws.
\<close>

lemma parse_inherited_accessor: "parse noParsers protoStruct = Inl TypeError"
  by code_simp

text \<open>
  Claim C5. For every struct and every parser map, the decision \<open>parse\<close> takes by
  comparing the number of parsed fields with the number of fields is the decision "the
  error map is empty". On the struct \<open>JSON.parse('{"__proto__": 5, "a": "a"}')\<close>,
  with a parser map that has no parser and inherits none, or with one that has a parser
  of its own for the field \<open>__proto__\<close>, no field fails and the error map is empty;
  but the assignment \<open>right['__proto__'] = 5\<close> adds no key to the record of the
  parsed fields, the count check sees one parsed field for two fields, and \<open>parse\<close>
  returns \<open>left({})\<close>, where the check of the error map gives
  \<open>right({ a: 'a' })\<close>.
\<close>

theorem parse_count_check_proto_field:
  "parse (nullPrototype (\<lambda>k. None)) protoStruct = Inr (Inl [])
   \<and> parse_by_errors (nullPrototype (\<lambda>k. None)) protoStruct = Inr (Inr [(''a'', VStr ''a'')])
   \<and> parse protoParsers protoStruct = Inr (Inl [])
   \<and> parse_by_errors protoParsers protoStruct = Inr (Inr [(''a'', VStr ''a'')])"
  by code_simp

section \<open>Ordered keys\<close>

lemma set_insertBy: "set (insertBy cmp x ys) = insert x (set ys)"
  by (induction ys) auto

lemma length_insertBy: "length (insertBy cmp x ys) = Suc (length ys)"
  by (induction ys) auto

lemma distinct_insertBy: "distinct (insertBy cmp x ys) \<longleftrightarrow> x \<notin> set ys \<and> distinct ys"
  by (induction ys) (auto simp: set_insertBy)

lemma set_foldl_insertBy:
  "set (foldl (\<lambda>acc x. insertBy cmp x acc) acc xs) = set acc \<union> set xs"
  by (induction xs arbitrary: acc) (auto simp: set_insertBy)

lemma length_foldl_insertBy:
  "length (foldl (\<lambda>acc x. insertBy cmp x acc) acc xs) = length acc + length xs"
  by (induction xs arbitrary: acc) (auto simp: length_insertBy)

lemma distinct_foldl_insertBy:
  "distinct (foldl (\<lambda>acc x. insertBy cmp x acc) acc xs)
     \<longleftrightarrow> distinct acc \<and> distinct xs \<and> set acc \<inter> set xs = {}"
  by (induction xs arbitrary: acc) (auto simp: distinct_insertBy set_insertBy)

lemma set_keys: "set (keys cmp r) = fst ` set r"
  by (simp add: keys_def sortBy_def keysOf_def set_foldl_insertBy)

lemma length_keys: "length (keys cmp r) = length r"
  by (simp add: keys_def sortBy_def keysOf_def length_foldl_insertBy)

lemma distinct_keys: "wf_struct r \<Longrightarrow> distinct (keys cmp r)"
  by (simp add: keys_def sortBy_def keysOf_def distinct_foldl_insertBy wf_struct_def)

lemma andThen_Inr [simp]: "andThen (Inr a) k = k a"
  by (simp add: andThen_def)

lemma andThen_Inl [simp]: "andThen (Inl e) k = Inl e"
  by (simp add: andThen_def)

lemma logged_sel [simp]:
  "map_seed (logged F) = (\<lambda>g x. andThen (map_seed F g x) (\<lambda>r. Inr (r, [MapOp])))"
  "map_fn (logged F) = (\<lambda>g fr. andThen (map_fn F g (fst fr)) (\<lambda>r. Inr (r, snd fr @ [MapOp])))"
  "map_acc (logged F) = (\<lambda>g fr. andThen (map_acc F g (fst fr)) (\<lambda>r. Inr (r, snd fr @ [MapOp])))"
  "ap (logged F) = (\<lambda>x ff. andThen (ap F x (fst ff)) (\<lambda>r. Inr (r, snd ff @ [ApOp])))"
  "as_any (logged F) = as_any F"
  by (simp_all add: logged_def)

lemma traverseStep_logged:
  "traverseStep (logged F) f ta (fr, l) k =
     andThen (traverseStep F f ta fr k) (\<lambda>r. Inr (r, l @ stepOps f k))"
proof (cases "f k")
  case None
  then show ?thesis by (simp add: traverseStep_def stepOps_def)
next
  case (Some fk)
  show ?thesis
  proof (cases "map_fn F (\<lambda>r b. assignProp k b r) fr")
    case (Inl e)
    then show ?thesis using Some by (simp add: traverseStep_def stepOps_def)
  next
    case (Inr ff)
    then show ?thesis using Some by (simp add: traverseStep_def stepOps_def)
  qed
qed

lemma traverseLoop_logged:
  "traverseLoop (logged F) f ta (fr, l) ks =
     andThen (traverseLoop F f ta fr ks) (\<lambda>r. Inr (r, l @ concat (map (stepOps f) ks)))"
proof (induction ks arbitrary: fr l)
  case Nil
  then show ?case by simp
next
  case (Cons k ks)
  show ?case
  proof (cases "traverseStep F f ta fr k")
    case (Inl e)
    then show ?thesis by (simp add: traverseStep_logged)
  next
    case (Inr fr')
    then show ?thesis by (simp add: traverseStep_logged Cons.IH)
  qed
qed

lemma traverseS_logged:
  "traverseS cmp (logged F) f ta =
     andThen (traverseS cmp F f ta)
       (\<lambda>r. Inr (r, MapOp # concat (map (stepOps f) (drop 1 (keys cmp ta)))))"
proof -
  let ?ks = "keys cmp ta"
  let ?k0 = "firstKey ?ks"
  let ?seed = "case f ?k0 of Some fk \<Rightarrow> fk (getProp ta ?k0) | None \<Rightarrow> as_any F (getProp ta ?k0)"
  show ?thesis
  proof (cases "map_seed F (\<lambda>r. [(?k0, r)]) ?seed")
    case (Inl e)
    then show ?thesis by (simp add: traverseS_def Let_def cong: option.case_cong)
  next
    case (Inr fr)
    then show ?thesis by (simp add: traverseS_def Let_def traverseLoop_logged cong: option.case_cong)
  qed
qed

lemma length_concat_stepOps:
  "length (concat (map (stepOps f) ks)) = length ks + length (filter (\<lambda>k. f k \<noteq> None) ks)"
  by (induction ks) (auto simp: stepOps_def split: option.splits)

lemma OptionApply_sel [simp]:
  "map_seed OptionApply = optionMap"
  "map_fn OptionApply = (\<lambda>g fr. Inr (map_option g fr))"
  "map_acc OptionApply = (\<lambda>g fr. Inr (map_option g fr))"
  "ap OptionApply = optionAp"
  "as_any OptionApply = (\<lambda>v. v)"
  by (simp_all add: OptionApply_def)

lemma isNone_none [simp]: "isNone none = Inr True"
  by (simp add: isNone_def none_def)

lemma isNone_some [simp]: "isNone (some x) = Inr False"
  by (simp add: isNone_def some_def)

lemma readProp_value_some [simp]: "readProp (some x) ''value'' = Inr x"
  by (simp add: some_def)

lemma payload_some [simp]: "payload (some x) = x"
  by (simp add: payload_def some_def)

lemma successful_some [simp]: "successful (some x)"
  by (simp add: successful_def)

lemma successful_not_none: "successful fa \<Longrightarrow> fa \<noteq> none"
  by (auto simp: successful_def some_def none_def)

lemma optionMap_some [simp]: "optionMap g (some x) = Inr (Some (g x))"
  by (simp add: optionMap_def)

lemma optionMap_none [simp]: "optionMap g none = Inr None"
  by (simp add: optionMap_def)

lemma optionAp_some [simp]: "optionAp (some x) (Some h) = Inr (Some (h x))"
  by (simp add: optionAp_def)

lemma optionAp_none [simp]: "optionAp none (Some h) = Inr None"
  by (simp add: optionAp_def)

lemma optionAp_None [simp]: "optionAp fa None = Inr None"
  by (simp add: optionAp_def)

lemma traverseStep_Option_None: "traverseStep OptionApply f ta None k = Inr None"
  by (simp add: traverseStep_def split: option.splits)

lemma traverseLoop_Option_None: "traverseLoop OptionApply f ta None ks = Inr None"
  by (induction ks) (simp_all add: traverseStep_Option_None)

lemma traverseStep_Option_Some:
  assumes "returnsSome f ta k"
  shows "traverseStep OptionApply f ta (Some r) k = Inr (Some (assignProp k (resolvedValue f ta k) r))"
proof (cases "f k")
  case None
  then show ?thesis by (simp add: traverseStep_def resolvedValue_def)
next
  case (Some fk)
  with assms have "fk (getProp ta k) = some (payload (fk (getProp ta k)))"
    by (simp add: returnsSome_def successful_def)
  then obtain x where x: "fk (getProp ta k) = some x" ..
  show ?thesis using Some by (simp add: traverseStep_def resolvedValue_def x)
qed

lemma traverseStep_Option_returnsNone:
  assumes "returnsNone f ta k"
  shows "traverseStep OptionApply f ta fr k = Inr None"
proof (cases "f k")
  case None
  with assms show ?thesis by (simp add: returnsNone_def)
next
  case (Some fk)
  with assms have "fk (getProp ta k) = none" by (simp add: returnsNone_def)
  then show ?thesis using Some by (cases fr) (simp_all add: traverseStep_def)
qed

lemma returnsOption_cases:
  "returnsOption f ta k \<Longrightarrow> returnsNone f ta k \<or> returnsSome f ta k"
  by (auto simp: returnsOption_def returnsNone_def returnsSome_def split: option.splits)

lemma traverseLoop_Option_all_some:
  "\<forall>k \<in> set ks. returnsSome f ta k \<Longrightarrow>
   traverseLoop OptionApply f ta (Some r) ks =
     Inr (Some (foldl (\<lambda>r k. assignProp k (resolvedValue f ta k) r) r ks))"
  by (induction ks arbitrary: r) (simp_all add: traverseStep_Option_Some)

lemma traverseLoop_Option_some_none:
  "\<forall>k \<in> set ks. returnsOption f ta k \<Longrightarrow> \<exists>k \<in> set ks. returnsNone f ta k \<Longrightarrow>
   traverseLoop OptionApply f ta fr ks = Inr None"
proof (induction ks arbitrary: fr)
  case Nil
  then show ?case by simp
next
  case (Cons k ks)
  show ?case
  proof (cases "returnsNone f ta k")
    case True
    then show ?thesis
      by (simp add: traverseStep_Option_returnsNone traverseLoop_Option_None)
  next
    case False
    with Cons.prems have some: "returnsSome f ta k" and rest: "\<exists>k \<in> set ks. returnsNone f ta k"
      and opts: "\<forall>k \<in> set ks. returnsOption f ta k"
      using returnsOption_cases by auto
    show ?thesis
    proof (cases fr)
      case None
      then show ?thesis by (simp add: traverseLoop_Option_None traverseStep_Option_None)
    next
      case (Some r)
      then show ?thesis using Cons.IH[OF opts rest] some
        by (simp add: traverseStep_Option_Some)
    qed
  qed
qed

lemma map_of_foldl_setProp:
  "map_of (foldl (\<lambda>r k. setProp k (g k) r) r ks) k' =
     (if k' \<in> set ks then Some (g k') else map_of r k')"
  by (induction ks arbitrary: r) (auto simp: map_of_setProp)

lemma keys_foldl_setProp:
  "fst ` set (foldl (\<lambda>r k. setProp k (g k) r) r ks) = fst ` set r \<union> set ks"
  by (induction ks arbitrary: r) (auto simp: set_keys_setProp)

lemma distinct_foldl_setProp:
  "distinct (map fst r) \<Longrightarrow> distinct (map fst (foldl (\<lambda>r k. setProp k (g k) r) r ks))"
  by (induction ks arbitrary: r) (auto simp: distinct_setProp)

lemma foldl_assignProp_plain:
  "''__proto__'' \<notin> set ks \<Longrightarrow>
   foldl (\<lambda>r k. assignProp k (g k) r) r ks = foldl (\<lambda>r k. setProp k (g k) r) r ks"
  by (induction ks arbitrary: r) (auto simp: assignProp_plain)

lemma map_of_assignProp_other: "k' \<noteq> k \<Longrightarrow> map_of (assignProp k v ps) k' = map_of ps k'"
  by (simp add: assignProp_def map_of_setProp)

lemma map_of_foldl_assignProp_other:
  "k' \<notin> set ks \<Longrightarrow> map_of (foldl (\<lambda>r k. assignProp k (g k) r) r ks) k' = map_of r k'"
  by (induction ks arbitrary: r) (auto simp: map_of_assignProp_other)

lemma keys_nonempty:
  assumes "ta \<noteq> []"
  shows "keys cmp ta = firstKey (keys cmp ta) # drop 1 (keys cmp ta)"
proof -
  have "length (keys cmp ta) \<noteq> 0" using assms by (simp add: length_keys)
  then obtain k rest where "keys cmp ta = k # rest" by (cases "keys cmp ta") auto
  then show ?thesis by (simp add: firstKey_def)
qed

lemma traverseS_Option_all_some:
  assumes ne: "ta \<noteq> []"
    and first: "f (firstKey (keys cmp ta)) \<noteq> None"
    and ok: "\<forall>k \<in> fst ` set ta. returnsSome f ta k"
  shows "traverseS cmp OptionApply f ta =
           Inr (Some (foldl (\<lambda>r k. assignProp k (resolvedValue f ta k) r)
                  [(firstKey (keys cmp ta), resolvedValue f ta (firstKey (keys cmp ta)))]
                  (drop 1 (keys cmp ta))))"
proof -
  let ?k0 = "firstKey (keys cmp ta)"
  let ?rest = "drop 1 (keys cmp ta)"
  have ks: "keys cmp ta = ?k0 # ?rest" using ne by (rule keys_nonempty)
  have mem: "set (keys cmp ta) = fst ` set ta" by (rule set_keys)
  have k0: "?k0 \<in> fst ` set ta" using ks mem by (metis list.set_intros(1))
  have rest: "\<forall>k \<in> set ?rest. returnsSome f ta k"
    using ok mem ks by (metis list.set_intros(2))
  obtain fk where fk: "f ?k0 = Some fk" using first by auto
  have "successful (fk (getProp ta ?k0))" using ok k0 fk by (auto simp: returnsSome_def)
  then have seed: "fk (getProp ta ?k0) = some (resolvedValue f ta ?k0)"
    by (simp add: successful_def resolvedValue_def fk)
  have e1: "traverseS cmp OptionApply f ta =
      traverseLoop OptionApply f ta (Some [(?k0, resolvedValue f ta ?k0)]) ?rest"
    by (simp add: traverseS_def Let_def fk seed)
  have e2: "traverseLoop OptionApply f ta (Some [(?k0, resolvedValue f ta ?k0)]) ?rest =
      Inr (Some (foldl (\<lambda>r k. assignProp k (resolvedValue f ta k) r)
        [(?k0, resolvedValue f ta ?k0)] ?rest))"
    using rest by (rule traverseLoop_Option_all_some)
  show ?thesis unfolding e1 e2 by simp
qed

lemma optionMap_non_nullish:
  "\<not> nullish v \<Longrightarrow> \<exists>fr. optionMap g v = Inr fr"
  by (cases v) (simp_all add: optionMap_def isNone_def nullish_def)

section \<open>traverseS: the claims\<close>

text \<open>
  Under the optional effect, when the first field in order has a handler, every
  handler returns \<open>some\<close> and no field is named \<open>__proto__\<close>, the traversal
  succeeds with a struct that has the fields of the input, each holding its resolved
  value.
\<close>

lemma traverseS_Option_result_fields:
  assumes "ta \<noteq> []" and "f (firstKey (keys cmp ta)) \<noteq> None"
    and "\<forall>k \<in> fst ` set ta. returnsSome f ta k"
    and np: "''__proto__'' \<notin> fst ` set ta"
  shows "\<exists>s. traverseS cmp OptionApply f ta = Inr (Some s)
           \<and> fst ` set s = fst ` set ta
           \<and> wf_struct s
           \<and> (\<forall>k \<in> fst ` set ta. map_of s k = Some (resolvedValue f ta k))"
proof -
  let ?s = "foldl (\<lambda>r k. setProp k (resolvedValue f ta k) r) [] (keys cmp ta)"
  let ?k0 = "firstKey (keys cmp ta)"
  let ?rest = "drop 1 (keys cmp ta)"
  have ks: "keys cmp ta = ?k0 # ?rest" using assms(1) by (rule keys_nonempty)
  have "''__proto__'' \<notin> set (keys cmp ta)" using np by (simp add: set_keys)
  then have "''__proto__'' \<notin> set ?rest" by (metis in_set_dropD)
  then have "foldl (\<lambda>r k. assignProp k (resolvedValue f ta k) r) [(?k0, resolvedValue f ta ?k0)] ?rest
      = foldl (\<lambda>r k. setProp k (resolvedValue f ta k) r) [(?k0, resolvedValue f ta ?k0)] ?rest"
    by (rule foldl_assignProp_plain)
  also have "\<dots> = foldl (\<lambda>r k. setProp k (resolvedValue f ta k) r) [] (?k0 # ?rest)" by simp
  also have "\<dots> = ?s" using ks by simp
  finally have "traverseS cmp OptionApply f ta = Inr (Some ?s)"
    using traverseS_Option_all_some[OF assms(1,2,3)] by simp
  moreover have "fst ` set ?s = fst ` set ta"
    by (simp add: keys_foldl_setProp set_keys)
  moreover have "wf_struct ?s"
    by (simp add: wf_struct_def distinct_foldl_setProp)
  moreover have "\<forall>k \<in> fst ` set ta. map_of ?s k = Some (resolvedValue f ta k)"
    by (simp add: map_of_foldl_setProp set_keys)
  ultimately show ?thesis by blast
qed

text \<open>
  Whatever the order, when the first field in it has no handler and holds a number,
  the traversal under the optional effect returns a struct that holds \<open>undefined\<close>
  under that key.
\<close>

lemma traverseS_Option_first_unhandled:
  assumes wf: "wf_struct ta" and ne: "ta \<noteq> []"
    and first: "f (firstKey (keys cmp ta)) = None"
    and num: "getProp ta (firstKey (keys cmp ta)) = VNum n"
    and ok: "\<forall>k \<in> set (drop 1 (keys cmp ta)). returnsSome f ta k"
  shows "\<exists>s. traverseS cmp OptionApply f ta = Inr (Some s)
           \<and> map_of s (firstKey (keys cmp ta)) = Some VUndefined"
proof -
  let ?k0 = "firstKey (keys cmp ta)"
  let ?rest = "drop 1 (keys cmp ta)"
  let ?s = "foldl (\<lambda>r k. assignProp k (resolvedValue f ta k) r) [(?k0, VUndefined)] ?rest"
  have ks: "keys cmp ta = ?k0 # ?rest" using ne by (rule keys_nonempty)
  have "distinct (keys cmp ta)" using wf by (rule distinct_keys)
  then have fresh: "?k0 \<notin> set ?rest" using ks by (metis distinct.simps(2))
  have seed: "optionMap (\<lambda>r. [(?k0, r)]) (VNum n) = Inr (Some [(?k0, VUndefined)])"
    by (simp add: optionMap_def isNone_def)
  have loop: "traverseLoop OptionApply f ta (Some [(?k0, VUndefined)]) ?rest = Inr (Some ?s)"
    using ok by (rule traverseLoop_Option_all_some)
  have "traverseS cmp OptionApply f ta = Inr (Some ?s)"
    using loop by (simp add: traverseS_def Let_def first num seed)
  moreover have "map_of ?s ?k0 = Some VUndefined"
    using fresh by (simp add: map_of_foldl_assignProp_other)
  ultimately show ?thesis by blast
qed

text \<open>
  Claim C1. When every supplied handler returns a successful effect, \<open>traverseS\<close> is to
  return a success wrapping a struct in which every field with a handler holds the
  handler's output and every field without one holds its original value, also when the
  first field in order has no handler. The code misses that last case: it hands the raw
  value of the first field to \<open>F.map\<close> as though it were an effect. For the struct
  \<open>{ a: 1, b: 'b', c: 2 }\<close> and a handler for \<open>b\<close> only, the handler returns
  \<open>some\<close> and the field \<open>a\<close> is to keep the value 1, as the field \<open>c\<close> keeps
  its 2, but \<open>Option\<close>'s \<open>map\<close> reads the \<open>value\<close> property of the number 1
  and the result is \<open>some({ a: undefined, b: 1, c: 2 })\<close>.
\<close>

theorem traverseS_unhandled_first_field:
  "onlyB ''a'' = None
   \<and> returnsSome onlyB gapStruct ''b''
   \<and> resolvedValue onlyB gapStruct ''a'' = VNum 1
   \<and> traverseS StringOrd OptionApply onlyB gapStruct
       = Inr (Some [(''a'', VUndefined), (''b'', VNum 1), (''c'', VNum 2)])"
  by code_simp

text \<open>
  Under the optional effect, when every handler returns an \<open>Option\<close> and one of them
  returns \<open>none\<close>, the traversal returns \<open>none\<close> wherever that field stands in the
  order, provided the seeding of the accumulator does not throw: the first field has a
  handler, or its value is neither \<open>null\<close> nor \<open>undefined\<close>.
\<close>

lemma traverseS_Option_short_circuit:
  assumes ne: "ta \<noteq> []"
    and opts: "\<forall>k \<in> fst ` set ta. returnsOption f ta k"
    and one: "\<exists>k \<in> fst ` set ta. returnsNone f ta k"
    and seed: "f (firstKey (keys cmp ta)) \<noteq> None \<or> \<not> nullish (getProp ta (firstKey (keys cmp ta)))"
  shows "traverseS cmp OptionApply f ta = Inr None"
proof -
  let ?k0 = "firstKey (keys cmp ta)"
  let ?rest = "drop 1 (keys cmp ta)"
  let ?v = "getProp ta ?k0"
  have ks: "keys cmp ta = ?k0 # ?rest" using ne by (rule keys_nonempty)
  have mem: "set (keys cmp ta) = fst ` set ta" by (rule set_keys)
  have dec: "fst ` set ta = insert ?k0 (set ?rest)"
    using ks mem by (metis list.simps(15))
  have rest: "\<forall>k \<in> set ?rest. returnsOption f ta k" using opts dec by simp
  have k0: "returnsOption f ta ?k0" using opts dec by simp
  show ?thesis
  proof (cases "returnsNone f ta ?k0")
    case True
    then obtain fk where "f ?k0 = Some fk" and "fk ?v = none"
      by (auto simp: returnsNone_def split: option.splits)
    then show ?thesis
      by (simp add: traverseS_def Let_def traverseLoop_Option_None)
  next
    case False
    with one dec have later: "\<exists>k \<in> set ?rest. returnsNone f ta k" by auto
    have loop: "traverseLoop OptionApply f ta fr ?rest = Inr None" for fr
      using rest later by (rule traverseLoop_Option_some_none)
    show ?thesis
    proof (cases "f ?k0")
      case None
      with seed have "\<not> nullish ?v" by simp
      then obtain fr where "optionMap (\<lambda>r. [(?k0, r)]) ?v = Inr fr"
        using optionMap_non_nullish by blast
      then show ?thesis using None loop[of fr] by (simp add: traverseS_def Let_def)
    next
      case (Some fk)
      with k0 False have "successful (fk ?v)"
        by (simp add: returnsOption_def returnsNone_def)
      then obtain x where x: "fk ?v = some x" unfolding successful_def ..
      show ?thesis using Some loop[of "Some [(?k0, x)]"]
        by (simp add: traverseS_def Let_def x)
    qed
  qed
qed

text \<open>
  Whatever the order and the handlers, when the first field has no handler and holds
  \<open>null\<close> or \<open>undefined\<close>, the traversal under the optional effect throws.
\<close>

lemma traverseS_Option_first_nullish:
  assumes "f (firstKey (keys cmp ta)) = None"
    and "nullish (getProp ta (firstKey (keys cmp ta)))"
  shows "traverseS cmp OptionApply f ta = Inl TypeError"
  using assms
  by (auto simp: traverseS_def Let_def optionMap_def isNone_def nullish_def)

text \<open>
  Claim C3. Under the optional effect, if any field's handler returns \<open>none\<close> the
  result of \<open>traverseS\<close> is to be \<open>none\<close>, for every non-empty struct and handler
  map. The code throws instead when the first field in order has no handler and holds
  \<open>null\<close>: for the struct \<open>{ a: null, b: 1, c: null }\<close> and a handler for \<open>b\<close> that
  returns \<open>none\<close>, the raw \<open>null\<close> is handed to \<open>Option\<close>'s \<open>map\<close>, whose read
  of \<open>_tag\<close> throws a \<open>TypeError\<close>.
\<close>

theorem traverseS_null_first_field:
  "failB ''a'' = None
   \<and> returnsNone failB nullStruct ''b''
   \<and> traverseS StringOrd OptionApply failB nullStruct = Inl TypeError"
  by code_simp

lemma count_maps_stepOps:
  "length (filter (\<lambda>op. op = MapOp) (concat (map (stepOps f) ks))) = length ks"
  by (induction ks) (auto simp: stepOps_def split: option.splits)

lemma count_aps_stepOps:
  "length (filter (\<lambda>op. op = ApOp) (concat (map (stepOps f) ks)))
     = length (filter (\<lambda>k. f k \<noteq> None) ks)"
  by (induction ks) (auto simp: stepOps_def split: option.splits)

text \<open>
  Claim C6, as stated: the number of \<open>map\<close> and \<open>ap\<close> operations of one traversal
  equals the number of fields with a handler plus the number of fields without one.
  It fails on the struct \<open>{ a: 1, b: 'b', c: 'abc' }\<close> with handlers for \<open>a\<close> and
  \<open>b\<close>: three fields, four operations, the field \<open>b\<close> costing a \<open>map\<close> and an
  \<open>ap\<close>.
\<close>

theorem traverseS_field_count_counterexample:
  "traverseS StringOrd (logged OptionApply) exHandlers abcStruct
     = Inr (Some [(''a'', VNum 2), (''b'', VNum 1), (''c'', VStr ''abc'')],
            [MapOp, MapOp, ApOp, MapOp])
   \<and> length [MapOp, MapOp, ApOp, MapOp]
       \<noteq> fieldsWithHandler exHandlers abcStruct + fieldsWithoutHandler exHandlers abcStruct"
  by code_simp

text \<open>
  Claim C6, amended. One call of \<open>traverseS\<close> on a non-empty struct makes one pass
  over the fields in the order of the ordering provider: one \<open>map\<close> seeds the
  accumulator from the first field, then every later field contributes, in order, one
  \<open>map\<close> when it has no handler and one \<open>map\<close> followed by one \<open>ap\<close> when it has
  one. So a traversal that returns has performed as many \<open>map\<close> operations as there
  are fields and as many \<open>ap\<close> operations as there are fields with a handler after
  the first, and the total is the sum of the two.
\<close>

theorem traverseS_operations:
  assumes "ta \<noteq> []"
  shows "traverseS cmp (logged F) f ta
           = andThen (traverseS cmp F f ta) (\<lambda>r. Inr (r, opLog f (keys cmp ta)))
       \<and> length (filter (\<lambda>op. op = MapOp) (opLog f (keys cmp ta))) = length ta
       \<and> length (filter (\<lambda>op. op = ApOp) (opLog f (keys cmp ta)))
           = length (filter (\<lambda>k. f k \<noteq> None) (drop 1 (keys cmp ta)))
       \<and> length (opLog f (keys cmp ta))
           = length ta + length (filter (\<lambda>k. f k \<noteq> None) (drop 1 (keys cmp ta)))"
proof -
  have n: "length (drop 1 (keys cmp ta)) = length ta - 1" by (simp add: length_keys)
  have pos: "0 < length ta" using assms by simp
  have a: "traverseS cmp (logged F) f ta
           = andThen (traverseS cmp F f ta) (\<lambda>r. Inr (r, opLog f (keys cmp ta)))"
    by (simp add: traverseS_logged opLog_def)
  have b: "length (filter (\<lambda>op. op = MapOp) (opLog f (keys cmp ta))) = length ta"
    using pos by (simp add: opLog_def count_maps_stepOps length_keys)
  have c: "length (filter (\<lambda>op. op = ApOp) (opLog f (keys cmp ta)))
           = length (filter (\<lambda>k. f k \<noteq> None) (drop 1 (keys cmp ta)))"
    by (simp add: opLog_def count_aps_stepOps)
  have d: "length (opLog f (keys cmp ta))
           = length ta + length (filter (\<lambda>k. f k \<noteq> None) (drop 1 (keys cmp ta)))"
    using pos by (simp add: opLog_def length_concat_stepOps length_keys)
  from a b c d show ?thesis by blast
qed

theorem traverseS_operations_witness:
  "abcStruct \<noteq> []
   \<and> traverseS StringOrd (logged OptionApply) exHandlers abcStruct
       = Inr (Some [(''a'', VNum 2), (''b'', VNum 1), (''c'', VStr ''abc'')],
              [MapOp, MapOp, ApOp, MapOp])
   \<and> length ([MapOp, MapOp, ApOp, MapOp] :: effect_op list) = length abcStruct + 1"
proof -
  have ne: "abcStruct \<noteq> []" by (simp add: abcStruct_def)
  have ev: "traverseS StringOrd OptionApply exHandlers abcStruct
              = Inr (Some [(''a'', VNum 2), (''b'', VNum 1), (''c'', VStr ''abc'')])"
    by code_simp
  have lg: "opLog exHandlers (keys StringOrd abcStruct) = [MapOp, MapOp, ApOp, MapOp]"
    by code_simp
  from traverseS_operations[OF ne, of StringOrd OptionApply exHandlers]
  show ?thesis using ne ev lg by (simp add: abcStruct_def)
qed

section \<open>compactS and unCompact: closed forms\<close>


lemma foldl_setProp_fresh:
  "distinct (map fst xs) \<Longrightarrow> fst ` set xs \<inter> fst ` set acc = {} \<Longrightarrow>
   foldl (\<lambda>out kv. setProp (fst kv) (g kv) out) acc xs = acc @ map (\<lambda>kv. (fst kv, g kv)) xs"
proof (induction xs arbitrary: acc)
  case Nil
  then show ?case by simp
next
  case (Cons kv xs)
  from Cons.prems have fresh: "fst kv \<notin> fst ` set acc" and d: "distinct (map fst xs)"
    and nin: "fst kv \<notin> fst ` set xs" and dis: "fst ` set xs \<inter> fst ` set acc = {}"
    by auto
  have "fst ` set xs \<inter> fst ` set (acc @ [(fst kv, g kv)]) = {}"
    using nin dis by auto
  from Cons.IH[OF d this] show ?case
    using fresh by (simp add: setProp_append_new)
qed

lemma assign_fresh:
  "distinct (map fst s) \<Longrightarrow> fst ` set s \<inter> fst ` set t = {} \<Longrightarrow> assign t s = t @ s"
  using foldl_setProp_fresh[of s t snd] by (simp add: assign_def)

lemma assign_empty: "wf_struct s \<Longrightarrow> assign [] s = s"
  by (simp add: assign_fresh wf_struct_def)

lemma getProp_member:
  "distinct (map fst a) \<Longrightarrow> kv \<in> set a \<Longrightarrow> getProp a (fst kv) = snd kv"
  by (cases kv) (simp add: getProp_def)

lemma assignable_Nil [simp]: "assignable [] = []"
  by (simp add: assignable_def)

lemma assignable_Cons:
  "assignable (kv # r) = (if fst kv = ''__proto__'' then assignable r else kv # assignable r)"
  by (simp add: assignable_def)

lemma assignable_plain: "''__proto__'' \<notin> fst ` set r \<Longrightarrow> assignable r = r"
  by (induction r) (auto simp: assignable_def)

lemma keys_assignable: "fst ` set (assignable r) = fst ` set r - {''__proto__''}"
  by (auto simp: assignable_def)

lemma assignable_idem [simp]: "assignable (filter P (assignable r)) = filter P (assignable r)"
  by (rule assignable_plain) (auto simp: assignable_def)

lemma wf_assignable: "wf_struct r \<Longrightarrow> wf_struct (assignable r)"
  by (simp add: wf_struct_def assignable_def distinct_map_filter)


lemma foldl_assignProp_keys:
  "''__proto__'' \<notin> fst ` set acc \<Longrightarrow>
   foldl (\<lambda>ops k. assignProp k (h k) ops) acc ks
     = foldl (\<lambda>ops k. setProp k (h k) ops) acc (filter (\<lambda>k. k \<noteq> ''__proto__'') ks)"
proof (induction ks arbitrary: acc)
  case Nil
  then show ?case by simp
next
  case (Cons k ks)
  show ?case
  proof (cases "k = ''__proto__''")
    case True
    then show ?thesis using Cons by (simp add: assignProp_proto_fresh)
  next
    case False
    then have "''__proto__'' \<notin> fst ` set (setProp k (h k) acc)"
      using Cons.prems by (simp add: set_keys_setProp)
    from Cons.IH[OF this] show ?thesis using False by (simp add: assignProp_plain)
  qed
qed

lemma unCompact_closed:
  assumes "wf_struct a"
  shows "unCompact a = map (\<lambda>kv. (fst kv, fromNullable (snd kv))) (assignable a)"
proof -
  have d: "distinct (map fst a)" using assms by (simp add: wf_struct_def)
  have gen: "set xs \<subseteq> set a \<Longrightarrow> distinct (map fst xs) \<Longrightarrow> fst ` set xs \<inter> fst ` set acc = {} \<Longrightarrow>
     foldl (\<lambda>ops key. setProp key (fromNullable (getProp a key)) ops) acc (map fst xs)
       = acc @ map (\<lambda>kv. (fst kv, fromNullable (snd kv))) xs" for xs acc
  proof (induction xs arbitrary: acc)
    case Nil
    then show ?case by simp
  next
    case (Cons kv xs)
    from Cons.prems have fresh: "fst kv \<notin> fst ` set acc" and dx: "distinct (map fst xs)"
      and nin: "fst kv \<notin> fst ` set xs" and dis: "fst ` set xs \<inter> fst ` set acc = {}"
      and sub: "set xs \<subseteq> set a" and mem: "kv \<in> set a"
      by auto
    have g: "getProp a (fst kv) = snd kv" using d mem by (rule getProp_member)
    have "fst ` set xs \<inter> fst ` set (acc @ [(fst kv, fromNullable (snd kv))]) = {}"
      using nin dis by auto
    from Cons.IH[OF sub dx this] show ?case
      using fresh by (simp add: setProp_append_new g)
  qed
  have ks: "filter (\<lambda>k. k \<noteq> ''__proto__'') (map fst a) = map fst (assignable a)"
    by (simp add: assignable_def filter_map comp_def)
  have da: "distinct (map fst (assignable a))"
    using d by (simp add: assignable_def distinct_map_filter)
  have "unCompact a
      = foldl (\<lambda>ops key. setProp key (fromNullable (getProp a key)) ops) []
          (map fst (assignable a))"
    using foldl_assignProp_keys[of "[]" "\<lambda>key. fromNullable (getProp a key)" "map fst a"]
    by (simp add: unCompact_def keysOf_def ks)
  also have "\<dots> = map (\<lambda>kv. (fst kv, fromNullable (snd kv))) (assignable a)"
    using gen[of "assignable a" "[]"] da by (simp add: assignable_def)
  finally show ?thesis .
qed

lemma partitionR_closed:
  assumes "wf_struct r"
  shows "partitionR p r = (filter (\<lambda>kv. \<not> p (snd kv)) (assignable r),
                           filter (\<lambda>kv. p (snd kv)) (assignable r))"
proof -
  have gen: "distinct (map fst xs) \<Longrightarrow> fst ` set xs \<inter> fst ` set l = {} \<Longrightarrow>
      fst ` set xs \<inter> fst ` set q = {} \<Longrightarrow>
      ''__proto__'' \<notin> fst ` set l \<Longrightarrow> ''__proto__'' \<notin> fst ` set q \<Longrightarrow>
      foldl (\<lambda>acc kv. if p (snd kv) then (fst acc, assignProp (fst kv) (snd kv) (snd acc))
                       else (assignProp (fst kv) (snd kv) (fst acc), snd acc)) (l, q) xs
        = (l @ filter (\<lambda>kv. \<not> p (snd kv)) (assignable xs),
           q @ filter (\<lambda>kv. p (snd kv)) (assignable xs))" for xs l q
  proof (induction xs arbitrary: l q)
    case Nil
    then show ?case by simp
  next
    case (Cons kv xs)
    from Cons.prems have kl: "fst kv \<notin> fst ` set l" and kq: "fst kv \<notin> fst ` set q"
      and d: "distinct (map fst xs)" and nin: "fst kv \<notin> fst ` set xs"
      and dl: "fst ` set xs \<inter> fst ` set l = {}" and dq: "fst ` set xs \<inter> fst ` set q = {}"
      and pl: "''__proto__'' \<notin> fst ` set l" and pq: "''__proto__'' \<notin> fst ` set q"
      by auto
    show ?case
    proof (cases "fst kv = ''__proto__''")
      case True
      from Cons.IH[OF d dl dq pl pq] show ?thesis
        using True pl pq by (simp add: assignProp_proto_fresh assignable_Cons)
    next
      case False
      show ?thesis
      proof (cases "p (snd kv)")
        case True
        have "fst ` set xs \<inter> fst ` set (q @ [kv]) = {}" using nin dq by auto
        moreover have "''__proto__'' \<notin> fst ` set (q @ [kv])" using pq False by auto
        ultimately show ?thesis
          using Cons.IH[OF d dl _ pl, of "q @ [kv]"] True kq False
          by (simp add: assignProp_plain setProp_append_new assignable_Cons)
      next
        case nop: False
        have "fst ` set xs \<inter> fst ` set (l @ [kv]) = {}" using nin dl by auto
        moreover have "''__proto__'' \<notin> fst ` set (l @ [kv])" using pl False by auto
        ultimately show ?thesis
          using Cons.IH[OF d _ dq _ pq, of "l @ [kv]"] nop kl False
          by (simp add: assignProp_plain setProp_append_new assignable_Cons)
      qed
    qed
  qed
  from gen[of r "[]" "[]"] assms show ?thesis by (simp add: partitionR_def wf_struct_def)
qed

lemma filterMapR_closed:
  assumes "wf_struct r"
  shows "filterMapR f r =
     map (\<lambda>kv. (fst kv, payload (f (snd kv))))
       (filter (\<lambda>kv. lookupChain (f (snd kv)) ''_tag'' = Some (VStr ''Some'')) (assignable r))"
proof -
  let ?c = "\<lambda>kv. lookupChain (f (snd kv)) ''_tag'' = Some (VStr ''Some'')"
  let ?g = "\<lambda>kv::string \<times> val. payload (f (snd kv))"
  have gen: "distinct (map fst xs) \<Longrightarrow> fst ` set xs \<inter> fst ` set acc = {} \<Longrightarrow>
      ''__proto__'' \<notin> fst ` set acc \<Longrightarrow>
      foldl (\<lambda>out kv. if ?c kv then assignProp (fst kv) (?g kv) out else out) acc xs
        = acc @ map (\<lambda>kv. (fst kv, ?g kv)) (filter ?c (assignable xs))" for xs acc
  proof (induction xs arbitrary: acc)
    case Nil
    then show ?case by simp
  next
    case (Cons kv xs)
    from Cons.prems have fresh: "fst kv \<notin> fst ` set acc" and d: "distinct (map fst xs)"
      and nin: "fst kv \<notin> fst ` set xs" and dis: "fst ` set xs \<inter> fst ` set acc = {}"
      and pa: "''__proto__'' \<notin> fst ` set acc"
      by auto
    show ?case
    proof (cases "?c kv \<and> fst kv \<noteq> ''__proto__''")
      case True
      have "fst ` set xs \<inter> fst ` set (acc @ [(fst kv, ?g kv)]) = {}" using nin dis by auto
      moreover have "''__proto__'' \<notin> fst ` set (acc @ [(fst kv, ?g kv)])" using pa True by auto
      ultimately show ?thesis
        using Cons.IH[OF d, of "acc @ [(fst kv, ?g kv)]"] True fresh
        by (simp add: assignProp_plain setProp_append_new assignable_Cons)
    next
      case False
      from Cons.IH[OF d dis pa] show ?thesis using False pa
        by (auto simp: assignProp_proto_fresh assignable_Cons)
    qed
  qed
  from gen[of r "[]"] assms show ?thesis
    by (simp add: filterMapR_def wf_struct_def)
qed

lemma distinct_keys_filter: "distinct (map fst r) \<Longrightarrow> distinct (map fst (filter P r))"
  by (simp add: distinct_map_filter)

lemma compactS_closed:
  assumes "wf_struct r"
  shows "compactS r =
     filter (\<lambda>kv. \<not> isOption (snd kv)) (assignable r)
     @ map (\<lambda>kv. (fst kv, payload (snd kv)))
         (filter (\<lambda>kv. lookupChain (snd kv) ''_tag'' = Some (VStr ''Some''))
            (filter (\<lambda>kv. isOption (snd kv)) (assignable r)))"
proof -
  let ?r = "assignable r"
  let ?L = "filter (\<lambda>kv. \<not> isOption (snd kv)) ?r"
  let ?R = "filter (\<lambda>kv. isOption (snd kv)) ?r"
  let ?FM = "map (\<lambda>kv. (fst kv, payload (snd kv)))
         (filter (\<lambda>kv. lookupChain (snd kv) ''_tag'' = Some (VStr ''Some'')) ?R)"
  have d: "distinct (map fst ?r)" using wf_assignable[OF assms] by (simp add: wf_struct_def)
  have wL: "wf_struct ?L" and wR: "wf_struct ?R"
    using d by (simp_all add: wf_struct_def distinct_keys_filter)
  have pr: "partitionR isOption r = (?L, ?R)" using assms by (rule partitionR_closed)
  have fm: "filterMapR (\<lambda>a. a) ?R = ?FM" using filterMapR_closed[OF wR, of "\<lambda>a. a"] by simp
  have kFM: "map fst ?FM = map fst (filter (\<lambda>kv. lookupChain (snd kv) ''_tag'' = Some (VStr ''Some'')) ?R)"
    by (simp add: comp_def)
  have dFM: "distinct (map fst ?FM)"
    unfolding kFM using d by (simp add: distinct_keys_filter)
  have sub: "fst ` set ?FM \<subseteq> fst ` set ?R" by force
  have "fst ` set ?R \<inter> fst ` set ?L = {}"
  proof (rule ccontr)
    assume "fst ` set ?R \<inter> fst ` set ?L \<noteq> {}"
    then obtain k v w where "(k, v) \<in> set ?r" "isOption v" "(k, w) \<in> set ?r" "\<not> isOption w"
      by auto
    with d show False by (metis eq_key_imp_eq_value)
  qed
  with sub have dis: "fst ` set ?FM \<inter> fst ` set ?L = {}" by blast
  have "compactS r = assign (assign [] ?L) ?FM"
    by (simp add: compactS_def pr fm)
  also have "assign [] ?L = ?L" using wL by (rule assign_empty)
  also have "assign ?L ?FM = ?L @ ?FM" using dFM dis by (rule assign_fresh)
  finally show ?thesis .
qed




lemma isOption_fromNullable: "isOption (fromNullable v)"
  by (simp add: fromNullable_def none_def some_def hasIn_def keysOf_def)

lemma tag_fromNullable:
  "lookupChain (fromNullable v) ''_tag'' = Some (VStr ''Some'') \<longleftrightarrow> \<not> nullish v"
  by (simp add: fromNullable_def none_def some_def)

lemma payload_fromNullable: "\<not> nullish v \<Longrightarrow> payload (fromNullable v) = v"
  by (simp add: fromNullable_def payload_def some_def)

lemma compactS_unCompact:
  assumes "wf_struct s"
  shows "compactS (unCompact s) = filter (\<lambda>kv. \<not> nullish (snd kv)) (assignable s)"
proof -
  let ?u = "map (\<lambda>kv. (fst kv, fromNullable (snd kv))) (assignable s)"
  have u: "unCompact s = ?u" using assms by (rule unCompact_closed)
  have wu: "wf_struct ?u" using wf_assignable[OF assms] by (simp add: wf_struct_def comp_def)
  have au: "assignable ?u = ?u" by (rule assignable_plain) (auto simp: assignable_def)
  have "compactS ?u = map (\<lambda>kv. (fst kv, payload (snd kv)))
          (filter (\<lambda>kv. lookupChain (snd kv) ''_tag'' = Some (VStr ''Some'')) ?u)"
    by (simp add: compactS_closed[OF wu] au isOption_fromNullable)
  also have "\<dots> = map (\<lambda>kv. (fst kv, payload (fromNullable (snd kv))))
          (filter (\<lambda>kv. \<not> nullish (snd kv)) (assignable s))"
    by (simp add: filter_map comp_def tag_fromNullable)
  also have "\<dots> = map (\<lambda>kv. kv) (filter (\<lambda>kv. \<not> nullish (snd kv)) (assignable s))"
    by (rule map_cong) (auto simp: payload_fromNullable)
  finally show ?thesis by (simp add: u)
qed

section \<open>compactS and unCompact: the claims\<close>

text \<open>
  On a struct without a field named \<open>__proto__\<close>, \<open>compactS(unCompact(s))\<close> is
  \<open>s\<close> restricted to its fields that are neither \<open>null\<close> nor \<open>undefined\<close>: a
  nullish field is absent from the result, not restored, and every other field is
  present with its original value, in its original place. This holds also when a value
  is option-shaped, since \<open>unCompact\<close> wraps such a value like any other.
\<close>

lemma compactS_unCompact_roundtrip_plain:
  assumes "wf_struct s" and "''__proto__'' \<notin> set (keysOf s)"
  shows "compactS (unCompact s) = filter (\<lambda>kv. \<not> nullish (snd kv)) s"
  using compactS_unCompact[OF assms(1)] assms(2) by (simp add: assignable_plain keysOf_def)

lemma compactS_unCompact_test_struct:
  "compactS (unCompact nullableStruct) = [(''foo'', VNum 123), (''baz'', VStr ''abc'')]"
  by code_simp

text \<open>
  Claim C7. \<open>compactS(unCompact(s))\<close> is \<open>s\<close> restricted to its non-nullish
  fields, every one of them present with its original value. \<open>unCompact\<close> fills a
  new object by assignments: on \<open>JSON.parse('{"__proto__": 1, "a": 2}')\<close> the
  assignment \<open>ops['__proto__'] = some(1)\<close> replaces the prototype of \<open>ops\<close> and
  adds no key, \<open>unCompact\<close> returns \<open>{ a: some(2) }\<close>, and the round trip
  returns \<open>{ a: 2 }\<close>: the field \<open>__proto__\<close>, which holds the number 1, neither
  nullish nor option-shaped, is lost.
\<close>

theorem compactS_unCompact_proto_field:
  "map_of protoNumbers ''__proto__'' = Some (VNum 1)
   \<and> \<not> nullish (VNum 1) \<and> \<not> isOption (VNum 1)
   \<and> unCompact protoNumbers = [(''a'', some (VNum 2))]
   \<and> compactS (unCompact protoNumbers) = [(''a'', VNum 2)]"
  by code_simp




section \<open>Merging and inserting: the claims\<close>

lemma map_of_assign:
  "distinct (map fst s) \<Longrightarrow> map_of (assign t s) = map_of t ++ map_of s"
proof (induction s arbitrary: t)
  case Nil
  then show ?case by (simp add: assign_def)
next
  case (Cons kv s)
  obtain k v where kv: "kv = (k, v)" by (cases kv)
  from Cons.prems have fresh: "map_of s k = None" and d: "distinct (map fst s)"
    by (simp_all add: kv map_of_fresh)
  have "assign t (kv # s) = assign (setProp k v t) s" by (simp add: assign_def kv)
  also have "map_of \<dots> = map_of (setProp k v t) ++ map_of s" using d by (rule Cons.IH)
  also have "\<dots> = map_of t ++ map_of (kv # s)"
    using fresh by (auto simp: map_of_setProp kv map_add_def fun_eq_iff split: option.splits)
  finally show ?case .
qed

lemma keys_assign: "fst ` set (assign t s) = fst ` set t \<union> fst ` set s"
  unfolding assign_def by (induction s arbitrary: t) (auto simp: set_keys_setProp)

text \<open>
  Claim C4, as stated: \<open>concat(first)(second)\<close> is a shallow merge in which the fields
  of the second applied argument win, so that
  \<open>concat({ foo: 123, bar: '456' })({ bar: '123' })\<close> yields
  \<open>{ foo: 123, bar: '123' }\<close>. The code yields \<open>{ bar: '456', foo: 123 }\<close>: its
  first parameter is the operand named \<open>second\<close>, which is written last. Nor is
  every field merged: \<open>Object.assign\<close> assigns, and the field \<open>__proto__\<close> of
  \<open>JSON.parse('{"__proto__": 5, "a": "a"}')\<close> reaches the accessor that the target
  inherits and is not copied.
\<close>

theorem concat_assign_claimed_bias_counterexample:
  "concat_assign fooBar barOnly = [(''bar'', VStr ''456''), (''foo'', VNum 123)]
   \<and> map_of (concat_assign fooBar barOnly) ''bar'' \<noteq> Some (VStr ''123'')
   \<and> map_of protoStruct ''__proto__'' = Some (VNum 5)
   \<and> concat_assign [] protoStruct = [(''a'', VStr ''a'')]
   \<and> concat_assign protoStruct [] = [(''a'', VStr ''a'')]"
  by code_simp

lemma Object_assign_plain:
  "''__proto__'' \<notin> fst ` set s \<Longrightarrow> Object_assign (t, inherits) s = (assign t s, inherits)"
  unfolding Object_assign_def assign_def
  by (induction s arbitrary: t) (auto simp: assignStep_def)

text \<open>
  A field named \<open>__proto__\<close> is copied when an earlier such field has taken the
  accessor away, by giving the target the prototype \<open>null\<close>.
\<close>

lemma concat_assign_proto_field:
  "concat_assign [(''__proto__'', VNum 5)] [(''__proto__'', VNull)] = [(''__proto__'', VNum 5)]"
  by code_simp

text \<open>
  Claim C4, amended. For structs without a field named \<open>__proto__\<close>,
  \<open>getAssignSemigroup().concat(x)(y)\<close> is the shallow merge of \<open>y\<close> and \<open>x\<close> in
  which the fields of \<open>x\<close>, the argument applied first, win on a key collision: the
  result has the keys of both, and
  \<open>concat({ bar: '123' })({ foo: 123, bar: '456' })\<close>, which is
  \<open>pipe({ foo: 123, bar: '456' }, concat({ bar: '123' }))\<close>, yields
  \<open>{ foo: 123, bar: '123' }\<close>.
\<close>

theorem concat_assign_first_argument_wins:
  assumes "wf_struct x" and "wf_struct y"
    and "''__proto__'' \<notin> set (keysOf x)" and "''__proto__'' \<notin> set (keysOf y)"
  shows "map_of (concat_assign x y) = map_of y ++ map_of x
       \<and> fst ` set (concat_assign x y) = fst ` set x \<union> fst ` set y"
proof -
  have dx: "distinct (map fst x)" and dy: "distinct (map fst y)"
    using assms by (simp_all add: wf_struct_def)
  have c: "concat_assign x y = assign (assign [] y) x"
    using assms(3,4) by (simp add: concat_assign_def Object_assign_plain keysOf_def)
  have "assign [] y = y" using assms(2) by (rule assign_empty)
  then show ?thesis using dx by (auto simp: c map_of_assign keys_assign)
qed

theorem concat_assign_first_argument_wins_witness:
  "wf_struct barOnly \<and> wf_struct fooBar
   \<and> ''__proto__'' \<notin> set (keysOf barOnly) \<and> ''__proto__'' \<notin> set (keysOf fooBar)
   \<and> concat_assign barOnly fooBar = [(''foo'', VNum 123), (''bar'', VStr ''123'')]
   \<and> map_of (concat_assign barOnly fooBar) ''bar'' = Some (VStr ''123'')"
proof -
  have w1: "wf_struct barOnly" and w2: "wf_struct fooBar"
    by (simp_all add: wf_struct_def barOnly_def fooBar_def)
  have c: "concat_assign barOnly fooBar = [(''foo'', VNum 123), (''bar'', VStr ''123'')]"
    by code_simp
  have n1: "''__proto__'' \<notin> set (keysOf barOnly)" and n2: "''__proto__'' \<notin> set (keysOf fooBar)"
    by (simp_all add: keysOf_def barOnly_def fooBar_def)
  from concat_assign_first_argument_wins[OF w1 w2 n1 n2] w1 w2 n1 n2 c show ?thesis
    by (simp add: barOnly_def fooBar_def)
qed

text \<open>
  Claim C8, as stated: a helper that inserts a field fails with an error value when the
  field name already exists on the struct, rather than overwriting it. \<open>bind\<close> has no
  such check: on \<open>{ a: 1, b: 5 }\<close> with the key \<open>a\<close> it returns
  \<open>{ a: 2, b: 5 }\<close>.
\<close>

theorem bind_existing_key_counterexample:
  "map_of [(''a'', VNum 1), (''b'', VNum 5)] ''a'' = Some (VNum 1)
   \<and> bind ''a'' (\<lambda>obj. VNum 2) [(''a'', VNum 1), (''b'', VNum 5)] = [(''a'', VNum 2), (''b'', VNum 5)]"
  by code_simp

text \<open>
  Claim C8, amended. When \<open>bind\<close> or \<open>let\<close> is applied with a field name that
  already exists on the struct, nothing fails at run time: the result is a struct with
  the keys of the input in which that field holds the new value and every other field
  its old one.
\<close>

theorem bind_overwrites_existing_key:
  assumes "wf_struct obj" and "key \<in> fst ` set obj"
  shows "map_of (bind key fn obj) = (map_of obj)(key \<mapsto> fn obj)
       \<and> map fst (bind key fn obj) = map fst obj
       \<and> map_of (letFn key v obj) = (map_of obj)(key \<mapsto> v)
       \<and> map fst (letFn key v obj) = map fst obj"
  using assms by (simp add: bind_def letFn_def assign_empty map_of_setProp keys_setProp_old)

theorem bind_overwrites_existing_key_witness:
  "wf_struct [(''a'', VNum 1), (''b'', VNum 5)]
   \<and> ''a'' \<in> fst ` set [(''a'', VNum 1), (''b'', VNum 5)]
   \<and> map_of (bind ''a'' (\<lambda>obj. VNum 2) [(''a'', VNum 1), (''b'', VNum 5)]) ''a'' = Some (VNum 2)
   \<and> map_of (letFn ''a'' (VNum 2) [(''a'', VNum 1), (''b'', VNum 5)]) ''a'' = Some (VNum 2)"
proof -
  have w: "wf_struct [(''a'', VNum 1), (''b'', VNum 5)]" by (simp add: wf_struct_def)
  have m: "''a'' \<in> fst ` set [(''a'', VNum 1), (''b'', VNum 5)]" by simp
  from bind_overwrites_existing_key[OF w m, of "\<lambda>obj. VNum 2" "VNum 2"] w m show ?thesis by simp
qed

section \<open>The store: operations that keep the older objects\<close>

lemma keepsBelow_refl [simp]: "keepsBelow n st st"
  by (simp add: keepsBelow_def)

lemma keepsBelow_trans:
  "keepsBelow n st st' \<Longrightarrow> keepsBelow n st' st'' \<Longrightarrow> keepsBelow n st st''"
  by (simp add: keepsBelow_def)

lemma keepsBelow_length: "keepsBelow n st st' \<Longrightarrow> length st \<le> length st'"
  by (simp add: keepsBelow_def)

lemma fst_newObject [simp]: "fst (newObject props st) = length st"
  by (simp add: newObject_def)

lemma length_newObject [simp]: "length (snd (newObject props st)) = Suc (length st)"
  by (simp add: newObject_def)

lemma keepsBelow_writeProp: "n \<le> a \<Longrightarrow> keepsBelow n st (writeProp a k v st)"
  by (simp add: keepsBelow_def writeProp_def)

lemma keepsBelow_removeProp: "n \<le> a \<Longrightarrow> keepsBelow n st (removeProp a k st)"
  by (simp add: keepsBelow_def removeProp_def)

lemma keepsBelow_copyProp: "n \<le> a \<Longrightarrow> keepsBelow n st (copyProp a b k st)"
  by (simp add: copyProp_def keepsBelow_writeProp)

lemma keepsBelow_foldl:
  assumes "\<And>s x. keepsBelow n s (step s x)"
  shows "keepsBelow n st (foldl step st xs)"
proof (induction xs arbitrary: st)
  case Nil
  then show ?case by simp
next
  case (Cons x xs)
  have "keepsBelow n st (step st x)" by (rule assms)
  moreover have "keepsBelow n (step st x) (foldl step (step st x) xs)" by (rule Cons.IH)
  ultimately show ?case by (simp add: keepsBelow_trans)
qed

lemma keepsBelow_foldl_snd:
  assumes "\<And>s x. keepsBelow n (snd s) (snd (step s x))"
  shows "keepsBelow n (snd st) (snd (foldl step st xs))"
proof (induction xs arbitrary: st)
  case Nil
  then show ?case by simp
next
  case (Cons x xs)
  have "keepsBelow n (snd st) (snd (step st x))" by (rule assms)
  moreover have "keepsBelow n (snd (step st x)) (snd (foldl step (step st x) xs))"
    by (rule Cons.IH)
  ultimately show ?case by (simp add: keepsBelow_trans)
qed

lemma keepsBelow_assignStep_st:
  "n \<le> a \<Longrightarrow> keepsBelow n (snd hst) (snd (assignStep_st a b hst k))"
  by (simp add: assignStep_st_def keepsBelow_def Let_def)

lemma keepsBelow_objectAssign:
  "n \<le> a \<Longrightarrow> keepsBelow n (snd hst) (snd (objectAssign a b hst))"
  unfolding objectAssign_def by (rule keepsBelow_foldl_snd) (simp add: keepsBelow_assignStep_st)

lemma safeResult_alloc_then:
  assumes "\<And>s. keepsBelow (length st) s (body s)"
  shows "safeResult st (length st, body (st @ [props]))"
proof -
  have a: "keepsBelow (length st) st (st @ [props])" by (simp add: keepsBelow_def)
  have b: "keepsBelow (length st) (st @ [props]) (body (st @ [props]))" by (rule assms)
  from a b have c: "keepsBelow (length st) st (body (st @ [props]))" by (rule keepsBelow_trans)
  from b have "length (st @ [props]) \<le> length (body (st @ [props]))" by (rule keepsBelow_length)
  then have "length st < length (body (st @ [props]))" by simp
  with c show ?thesis by (simp add: safeResult_def)
qed

lemma pick_st_safe: "safeResult st (pick_st ks x st)"
  unfolding pick_st_def newObject_def Let_def prod.case
proof (rule safeResult_alloc_then)
  fix s
  have "keepsBelow (length st) (snd (True, s))
          (snd (foldl (assignStep_st (length st) x) (True, s) ks))"
    by (rule keepsBelow_foldl_snd) (simp add: keepsBelow_assignStep_st)
  then show "keepsBelow (length st) s (snd (foldl (assignStep_st (length st) x) (True, s) ks))"
    by simp
qed

lemma omit_st_safe: "safeResult st (omit_st ks x st)"
  unfolding omit_st_def newObject_def Let_def prod.case
  by (rule safeResult_alloc_then) (simp add: keepsBelow_foldl keepsBelow_removeProp)

lemma omit2_st_safe: "safeResult st (omit2_st ks x st)"
  unfolding omit2_st_def newObject_def Let_def prod.case
  by (rule safeResult_alloc_then) (simp add: keepsBelow_foldl keepsBelow_copyProp)

lemma unCompact_st_safe: "safeResult st (unCompact_st a st)"
  unfolding unCompact_st_def newObject_def Let_def prod.case
  by (rule safeResult_alloc_then) (simp add: keepsBelow_foldl keepsBelow_writeProp)

lemma mapWithIndex_st_safe: "safeResult st (mapWithIndex_st f r st)"
  unfolding mapWithIndex_st_def newObject_def Let_def prod.case
  by (rule safeResult_alloc_then) (simp add: keepsBelow_foldl keepsBelow_writeProp)

lemma evolve_st_safe: "safeResult st (evolve_st f a st)"
  unfolding evolve_st_def by (rule mapWithIndex_st_safe)

lemma concat_st_safe: "safeResult st (concat_st second first st)"
  unfolding concat_st_def newObject_def Let_def prod.case
proof (rule safeResult_alloc_then)
  fix s
  have "keepsBelow (length st) (snd (True, s)) (snd (objectAssign (length st) first (True, s)))"
    by (rule keepsBelow_objectAssign) simp
  moreover have "keepsBelow (length st) (snd (objectAssign (length st) first (True, s)))
      (snd (objectAssign (length st) second (objectAssign (length st) first (True, s))))"
    by (rule keepsBelow_objectAssign) simp
  ultimately show "keepsBelow (length st) s
      (snd (objectAssign (length st) second (objectAssign (length st) first (True, s))))"
    using keepsBelow_trans by fastforce
qed

lemma keepsBelow_append: "n \<le> length st \<Longrightarrow> keepsBelow n st (st @ xs)"
  by (simp add: keepsBelow_def)

lemma keepsBelow_alloc_loop:
  assumes "n \<le> length st" and "\<And>s x. keepsBelow n s (step s x)"
  shows "keepsBelow n st (foldl step (st @ news) xs)"
proof -
  have "keepsBelow n st (st @ news)" using assms(1) by (rule keepsBelow_append)
  moreover have "keepsBelow n (st @ news) (foldl step (st @ news) xs)"
    using assms(2) by (rule keepsBelow_foldl)
  ultimately show ?thesis by (rule keepsBelow_trans)
qed

lemma partitionR_st_keeps:
  assumes "n \<le> length st"
  shows "keepsBelow n st (snd (partitionR_st p r st))"
  unfolding partitionR_st_def newObject_def Let_def prod.case snd_conv append_assoc
  by (rule keepsBelow_alloc_loop) (use assms in \<open>simp_all add: keepsBelow_writeProp\<close>)

lemma filterMapR_st_keeps:
  assumes "n \<le> length st"
  shows "keepsBelow n st (snd (filterMapR_st f r st))"
  unfolding filterMapR_st_def newObject_def Let_def prod.case snd_conv
  by (rule keepsBelow_alloc_loop) (use assms in \<open>simp_all add: keepsBelow_writeProp\<close>)

lemma partitionMapLoop_st_keeps:
  assumes "n \<le> l" and "n \<le> p"
  shows "keepsBelow n s (snd (partitionMapLoop_st f r l p ks s))"
proof (induction ks arbitrary: s)
  case Nil
  then show ?case by simp
next
  case (Cons k ks)
  show ?case
  proof (cases "andThen (f k (getProp (ownProps s r) k)) fileEither")
    case (Inl err)
    then show ?thesis by simp
  next
    case (Inr d)
    show ?thesis
    proof (cases d)
      case (Inl x)
      have "keepsBelow n s (writeProp l k x s)" using assms(1) by (rule keepsBelow_writeProp)
      moreover have "keepsBelow n (writeProp l k x s)
          (snd (partitionMapLoop_st f r l p ks (writeProp l k x s)))" by (rule Cons.IH)
      ultimately show ?thesis using Inl \<open>andThen (f k (getProp (ownProps s r) k)) fileEither = Inr d\<close>
        by (simp add: keepsBelow_trans)
    next
      case (Inr x)
      have "keepsBelow n s (writeProp p k x s)" using assms(2) by (rule keepsBelow_writeProp)
      moreover have "keepsBelow n (writeProp p k x s)
          (snd (partitionMapLoop_st f r l p ks (writeProp p k x s)))" by (rule Cons.IH)
      ultimately show ?thesis using Inr \<open>andThen (f k (getProp (ownProps s r) k)) fileEither = Inr d\<close>
        by (simp add: keepsBelow_trans)
    qed
  qed
qed

lemma snd_partitionMapWithIndex_st:
  "snd (partitionMapWithIndex_st f r st) =
     snd (partitionMapLoop_st f r (length st) (Suc (length st))
            (keysOf (ownProps (st @ [[], []]) r)) (st @ [[], []]))"
  by (simp add: partitionMapWithIndex_st_def newObject_def split_def Let_def)

lemma partitionMapWithIndex_st_keeps:
  assumes "n \<le> length st"
  shows "keepsBelow n st (snd (partitionMapWithIndex_st f r st))"
proof -
  have "keepsBelow n st (st @ [[], []])" using assms by (rule keepsBelow_append)
  moreover have "keepsBelow n (st @ [[], []])
      (snd (partitionMapLoop_st f r (length st) (Suc (length st))
              (keysOf (ownProps (st @ [[], []]) r)) (st @ [[], []])))"
    using assms by (intro partitionMapLoop_st_keeps) simp_all
  ultimately show ?thesis unfolding snd_partitionMapWithIndex_st by (rule keepsBelow_trans)
qed

lemma partitionMapWithIndex_st_addrs:
  "fst (partitionMapWithIndex_st f r st) = Inr lr \<Longrightarrow> lr = (length st, Suc (length st))"
  by (auto simp: partitionMapWithIndex_st_def newObject_def split_def Let_def split: option.splits)

lemma partitionMapWithIndex_st_length:
  "Suc (Suc (length st)) \<le> length (snd (partitionMapWithIndex_st f r st))"
proof -
  let ?st2 = "st @ [[], []]"
  have "keepsBelow 0 ?st2 (snd (partitionMapWithIndex_st f r st))"
    unfolding snd_partitionMapWithIndex_st by (intro partitionMapLoop_st_keeps) simp_all
  then have "length ?st2 \<le> length (snd (partitionMapWithIndex_st f r st))"
    by (rule keepsBelow_length)
  then show ?thesis by simp
qed

lemma parse_st_safe:
  "keepsBelow (length st) st (snd (parse_st f fa st))
   \<and> (\<forall>a. fst (parse_st f fa st) = Inr (Inl a) \<or> fst (parse_st f fa st) = Inr (Inr a)
          \<longrightarrow> length st \<le> a \<and> a < length (snd (parse_st f fa st)))"
proof -
  obtain res st1 where pm: "partitionMapWithIndex_st (parseField f) fa st = (res, st1)"
    by (metis prod.exhaust)
  have k: "keepsBelow (length st) st st1"
    using partitionMapWithIndex_st_keeps[of "length st" st "parseField f" fa] pm by simp
  have ad: "\<And>lr. res = Inr lr \<Longrightarrow> lr = (length st, Suc (length st))"
    using partitionMapWithIndex_st_addrs[of "parseField f" fa st] pm by simp
  have ln: "Suc (Suc (length st)) \<le> length st1"
    using partitionMapWithIndex_st_length[of st "parseField f" fa] pm by simp
  show ?thesis
  proof (cases res)
    case (Inl err)
    then show ?thesis using k by (simp add: parse_st_def pm)
  next
    case (Inr lr)
    from ad[OF Inr] show ?thesis using k ln Inr by (auto simp: parse_st_def pm)
  qed
qed

lemma refine_st_safe:
  "keepsBelow (length st) st (snd (refine_st predicates fa st))
   \<and> (\<forall>a. fst (refine_st predicates fa st) = Some a
          \<longrightarrow> length st \<le> a \<and> a < length (snd (refine_st predicates fa st)))"
  by (simp add: refine_st_def traverseWithIndexOption_st_def newObject_def keepsBelow_def Let_def)

lemma mapAt_st_safe: "safeResult st (mapAt_st prop f a st)"
  by (simp add: mapAt_st_def newObject_def safeResult_def keepsBelow_def)

lemma updateAt_st_safe: "safeResult st (updateAt_st prop v a st)"
  unfolding updateAt_st_def by (rule mapAt_st_safe)

lemma renameAt_st_safe: "safeResult st (renameAt_st from to a st)"
  by (simp add: renameAt_st_def newObject_def safeResult_def keepsBelow_def)

lemma insertAt_st_safe: "safeResult st (insertAt_st prop v obj st)"
proof -
  let ?t = "length st"
  let ?st2 = "st @ [[], [(prop, v)]]"
  let ?h1 = "objectAssign ?t obj (True, ?st2)"
  let ?h2 = "objectAssign ?t (Suc ?t) ?h1"
  have a: "keepsBelow ?t st ?st2" by (simp add: keepsBelow_def)
  have b: "keepsBelow ?t ?st2 (snd ?h1)"
    using keepsBelow_objectAssign[of ?t ?t "(True, ?st2)" obj] by simp
  have c: "keepsBelow ?t (snd ?h1) (snd ?h2)" by (rule keepsBelow_objectAssign) simp
  have k: "keepsBelow ?t st (snd ?h2)"
    using a b c keepsBelow_trans by blast
  have b0: "keepsBelow 0 ?st2 (snd ?h1)"
    using keepsBelow_objectAssign[of 0 ?t "(True, ?st2)" obj] by simp
  have c0: "keepsBelow 0 (snd ?h1) (snd ?h2)" by (rule keepsBelow_objectAssign) simp
  have "keepsBelow 0 ?st2 (snd ?h2)" using b0 c0 by (rule keepsBelow_trans)
  then have "length ?st2 \<le> length (snd ?h2)" by (rule keepsBelow_length)
  then show ?thesis using k
    by (simp add: insertAt_st_def newObject_def safeResult_def)
qed

lemma compactS_st_safe: "safeResult st (compactS_st r st)"
proof -
  obtain l rt st1 where pr: "partitionR_st isOption r st = ((l, rt), st1)"
    by (metis prod.exhaust)
  obtain fm st2 where fmr: "filterMapR_st (\<lambda>a. a) rt st1 = (fm, st2)"
    by (metis prod.exhaust)
  have k1: "keepsBelow (length st) st st1"
    using partitionR_st_keeps[of "length st" st isOption r] pr by simp
  then have le1: "length st \<le> length st1" by (rule keepsBelow_length)
  have k2: "keepsBelow (length st) st1 st2"
    using filterMapR_st_keeps[OF le1, of "\<lambda>a. a" rt] fmr by simp
  have k: "keepsBelow (length st) st st2" using k1 k2 by (rule keepsBelow_trans)
  then have le2: "length st \<le> length st2" by (rule keepsBelow_length)
  have "keepsBelow (length st) st2 (st2 @ [assign (assign [] (ownProps st2 l)) (ownProps st2 fm)])"
    using le2 by (rule keepsBelow_append)
  with k have "keepsBelow (length st) st (st2 @ [assign (assign [] (ownProps st2 l)) (ownProps st2 fm)])"
    by (rule keepsBelow_trans)
  then show ?thesis using le2
    by (simp add: compactS_st_def pr fmr newObject_def safeResult_def)
qed

lemma length_writeProp: "length (writeProp a k v st) = length st"
  by (simp add: writeProp_def)

lemma length_copyProp: "length (copyProp a b k st) = length st"
  by (simp add: copyProp_def length_writeProp)

lemma local0_seedFn: "local0 n (seedFn k0)"
  by (simp add: local0_def seedFn_def newObject_def keepsBelow_def)

lemma local2_setFn: "local2 n (setFn k)"
  by (simp add: local2_def local1_def setFn_def keepsBelow_writeProp length_writeProp)

lemma local1_keepFn: "local1 n (keepFn ta k)"
  by (simp add: local1_def keepFn_def keepsBelow_copyProp length_copyProp)

lemma neutral_seed:
  "neutral F okS okF \<Longrightarrow> local0 n g \<Longrightarrow> n \<le> length s \<Longrightarrow>
     keepsBelow n s (snd (st_map_seed F g x s))
     \<and> (\<forall>fr. fst (st_map_seed F g x s) = Inr fr \<longrightarrow> okS n (snd (st_map_seed F g x s)) fr)"
  by (simp add: neutral_def)

lemma neutral_held:
  "neutral F okS okF \<Longrightarrow> okS n s fr \<Longrightarrow> a \<in> held F fr \<Longrightarrow> n \<le> a \<and> a < length s"
  unfolding neutral_def by blast

lemma traverseStep_st_neutral:
  assumes F: "neutral F okS okF" and ok: "okS n st fr" and n: "n \<le> length st"
  shows "keepsBelow n st (snd (traverseStep_st F f ta fr k st))
       \<and> (\<forall>fr'. fst (traverseStep_st F f ta fr k st) = Inr fr'
             \<longrightarrow> okS n (snd (traverseStep_st F f ta fr k st)) fr')"
proof (cases "f k")
  case None
  have "local1 n (keepFn ta k)" by (rule local1_keepFn)
  with F ok n have "keepsBelow n st (snd (st_map_acc F (keepFn ta k) fr st))
        \<and> (\<forall>fr'. fst (st_map_acc F (keepFn ta k) fr st) = Inr fr'
              \<longrightarrow> okS n (snd (st_map_acc F (keepFn ta k) fr st)) fr')"
    unfolding neutral_def by blast
  then show ?thesis using None by (simp add: traverseStep_st_def)
next
  case (Some fk)
  obtain res st1 where m: "st_map_fn F (setFn k) fr st = (res, st1)" by (metis prod.exhaust)
  have "local2 n (setFn k)" by (rule local2_setFn)
  with F ok n have "keepsBelow n st (snd (st_map_fn F (setFn k) fr st))
        \<and> (\<forall>ff. fst (st_map_fn F (setFn k) fr st) = Inr ff
              \<longrightarrow> okF n (snd (st_map_fn F (setFn k) fr st)) ff)"
    unfolding neutral_def by blast
  then have k1: "keepsBelow n st st1" and okf: "\<forall>ff. res = Inr ff \<longrightarrow> okF n st1 ff"
    by (simp_all add: m)
  show ?thesis
  proof (cases res)
    case (Inl e)
    then show ?thesis using Some m k1 by (simp add: traverseStep_st_def)
  next
    case (Inr ff)
    let ?fa = "fk (getProp (ownProps st ta) k)"
    have n1: "n \<le> length st1" using k1 n keepsBelow_length by fastforce
    have "okF n st1 ff" using okf Inr by simp
    with F n1 have a: "keepsBelow n st1 (snd (st_ap F ?fa ff st1))
        \<and> (\<forall>fr'. fst (st_ap F ?fa ff st1) = Inr fr' \<longrightarrow> okS n (snd (st_ap F ?fa ff st1)) fr')"
      unfolding neutral_def by blast
    then have "keepsBelow n st (snd (st_ap F ?fa ff st1))"
      using k1 keepsBelow_trans by blast
    with a show ?thesis using Some m Inr by (simp add: traverseStep_st_def)
  qed
qed

lemma traverseLoop_st_neutral:
  assumes F: "neutral F okS okF"
  shows "okS n st fr \<Longrightarrow> n \<le> length st \<Longrightarrow>
     keepsBelow n st (snd (traverseLoop_st F f ta fr ks st))
       \<and> (\<forall>fr'. fst (traverseLoop_st F f ta fr ks st) = Inr fr'
             \<longrightarrow> okS n (snd (traverseLoop_st F f ta fr ks st)) fr')"
proof (induction ks arbitrary: fr st)
  case Nil
  then show ?case by simp
next
  case (Cons k ks)
  obtain res st1 where s: "traverseStep_st F f ta fr k st = (res, st1)" by (metis prod.exhaust)
  from traverseStep_st_neutral[OF F Cons.prems, of f ta k]
  have k1: "keepsBelow n st st1" and ok1: "\<forall>fr'. res = Inr fr' \<longrightarrow> okS n st1 fr'"
    by (simp_all add: s)
  show ?case
  proof (cases res)
    case (Inl e)
    then show ?thesis using s k1 by simp
  next
    case (Inr fr')
    have n1: "n \<le> length st1" using k1 Cons.prems(2) keepsBelow_length by fastforce
    have "okS n st1 fr'" using ok1 Inr by simp
    from Cons.IH[OF this n1]
    have a: "keepsBelow n st1 (snd (traverseLoop_st F f ta fr' ks st1))
       \<and> (\<forall>fr''. fst (traverseLoop_st F f ta fr' ks st1) = Inr fr''
             \<longrightarrow> okS n (snd (traverseLoop_st F f ta fr' ks st1)) fr'')" .
    then have "keepsBelow n st (snd (traverseLoop_st F f ta fr' ks st1))"
      using k1 keepsBelow_trans by blast
    with a show ?thesis using s Inr by simp
  qed
qed

lemma traverseS_st_neutral:
  assumes F: "neutral F okS okF"
  shows "keepsBelow (length st) st (snd (traverseS_st cmp F f ta st))
       \<and> (\<forall>fr a. fst (traverseS_st cmp F f ta st) = Inr fr \<and> a \<in> held F fr
             \<longrightarrow> length st \<le> a \<and> a < length (snd (traverseS_st cmp F f ta st)))"
proof -
  let ?n = "length st"
  let ?ks = "keys cmp (ownProps st ta)"
  let ?k0 = "firstKey ?ks"
  let ?seed = "case f ?k0 of Some fk \<Rightarrow> fk (getProp (ownProps st ta) ?k0)
                | None \<Rightarrow> st_as_any F (getProp (ownProps st ta) ?k0)"
  obtain res st1 where m: "st_map_seed F (seedFn ?k0) ?seed st = (res, st1)"
    by (metis prod.exhaust)
  have "keepsBelow ?n st (snd (st_map_seed F (seedFn ?k0) ?seed st))
        \<and> (\<forall>fr. fst (st_map_seed F (seedFn ?k0) ?seed st) = Inr fr
              \<longrightarrow> okS ?n (snd (st_map_seed F (seedFn ?k0) ?seed st)) fr)"
    by (rule neutral_seed[OF F local0_seedFn]) simp
  then have k1: "keepsBelow ?n st st1" and ok1: "\<forall>fr. res = Inr fr \<longrightarrow> okS ?n st1 fr"
    by (simp_all add: m)
  have hl: "\<And>s fr a. okS ?n s fr \<Longrightarrow> a \<in> held F fr \<Longrightarrow> ?n \<le> a \<and> a < length s"
    using F by (rule neutral_held)
  show ?thesis
  proof (cases res)
    case (Inl e)
    then show ?thesis using m k1 by (simp add: traverseS_st_def Let_def)
  next
    case (Inr fr)
    have n1: "?n \<le> length st1" using k1 by (rule keepsBelow_length)
    have "okS ?n st1 fr" using ok1 Inr by simp
    from traverseLoop_st_neutral[OF F this n1, of f ta "drop 1 ?ks"]
    have a: "keepsBelow ?n st1 (snd (traverseLoop_st F f ta fr (drop 1 ?ks) st1))"
      and b: "\<forall>fr'. fst (traverseLoop_st F f ta fr (drop 1 ?ks) st1) = Inr fr'
             \<longrightarrow> okS ?n (snd (traverseLoop_st F f ta fr (drop 1 ?ks) st1)) fr'"
      by simp_all
    have c: "keepsBelow ?n st (snd (traverseLoop_st F f ta fr (drop 1 ?ks) st1))"
      using k1 a by (rule keepsBelow_trans)
    have e: "traverseS_st cmp F f ta st = traverseLoop_st F f ta fr (drop 1 ?ks) st1"
      using m Inr by (simp add: traverseS_st_def Let_def)
    show ?thesis unfolding e using c b hl by blast
  qed
qed

lemma OptionApplySt_sel [simp]:
  "st_map_seed OptionApplySt = optionMap_st"
  "st_map_fn OptionApplySt = (\<lambda>g fr st. (Inr (map_option g fr), st))"
  "st_map_acc OptionApplySt = (\<lambda>g fr st. case fr of
                        None \<Rightarrow> (Inr None, st)
                      | Some r \<Rightarrow> (let (r', st1) = g r st in (Inr (Some r'), st1)))"
  "st_ap OptionApplySt = optionAp_st"
  "st_as_any OptionApplySt = (\<lambda>v. v)"
  "held OptionApplySt = set_option"
  by (simp_all add: OptionApplySt_def)

lemma optionMap_st_ok:
  assumes "\<And>v. n \<le> fst (g v s) \<and> fst (g v s) < length (snd (g v s)) \<and> keepsBelow n s (snd (g v s))"
  shows "keepsBelow n s (snd (optionMap_st g x s))
       \<and> (\<forall>fr. fst (optionMap_st g x s) = Inr fr \<longrightarrow> optionOkS n (snd (optionMap_st g x s)) fr)"
proof (cases "isNone x")
  case (Inl e)
  then show ?thesis by (simp add: optionMap_st_def)
next
  case (Inr b)
  show ?thesis
  proof (cases b)
    case True
    then show ?thesis using Inr by (simp add: optionMap_st_def optionOkS_def)
  next
    case False
    show ?thesis
    proof (cases "readProp x ''value''")
      case (Inl e)
      then show ?thesis using Inr False by (simp add: optionMap_st_def)
    next
      case (Inr v)
      then show ?thesis using \<open>isNone x = Inr b\<close> False assms[of v]
        by (simp add: optionMap_st_def optionOkS_def split_def Let_def)
    qed
  qed
qed

lemma OptionApplySt_neutral: "neutral OptionApplySt optionOkS optionOkF"
proof -
  have seed: "\<forall>n g x s. local0 n g \<and> n \<le> length s \<longrightarrow>
        keepsBelow n s (snd (optionMap_st g x s))
        \<and> (\<forall>fr. fst (optionMap_st g x s) = Inr fr \<longrightarrow> optionOkS n (snd (optionMap_st g x s)) fr)"
    by (intro allI impI optionMap_st_ok) (simp add: local0_def)
  have fnp: "\<forall>n g fr s. local2 n g \<and> optionOkS n s fr \<and> n \<le> length s \<longrightarrow>
        keepsBelow n s s \<and> (\<forall>ff. Inr (map_option g fr) = Inr ff \<longrightarrow> optionOkF n s ff)"
    by (auto simp: local2_def local1_def optionOkS_def optionOkF_def)
  have acc: "\<forall>n g fr s. local1 n g \<and> optionOkS n s fr \<and> n \<le> length s \<longrightarrow>
        keepsBelow n s (snd (case fr of None \<Rightarrow> (Inr None, s)
                      | Some r \<Rightarrow> (let (r', st1) = g r s in (Inr (Some r'), st1))))
        \<and> (\<forall>fr'. fst (case fr of None \<Rightarrow> (Inr None, s)
                      | Some r \<Rightarrow> (let (r', st1) = g r s in (Inr (Some r'), st1))) = Inr fr'
             \<longrightarrow> optionOkS n (snd (case fr of None \<Rightarrow> (Inr None, s)
                      | Some r \<Rightarrow> (let (r', st1) = g r s in (Inr (Some r'), st1)))) fr')"
    by (auto simp: local1_def optionOkS_def split_def Let_def split: option.splits)
  have app: "\<forall>n x ff s. optionOkF n s ff \<and> n \<le> length s \<longrightarrow>
        keepsBelow n s (snd (optionAp_st x ff s))
        \<and> (\<forall>fr. fst (optionAp_st x ff s) = Inr fr \<longrightarrow> optionOkS n (snd (optionAp_st x ff s)) fr)"
  proof (intro allI impI)
    fix n x ff s
    assume a: "optionOkF n s ff \<and> n \<le> length s"
    show "keepsBelow n s (snd (optionAp_st x ff s))
        \<and> (\<forall>fr. fst (optionAp_st x ff s) = Inr fr \<longrightarrow> optionOkS n (snd (optionAp_st x ff s)) fr)"
    proof (cases ff)
      case None
      then show ?thesis by (simp add: optionAp_st_def optionOkS_def)
    next
      case (Some h)
      with a have "\<And>v. n \<le> fst (h v s) \<and> fst (h v s) < length (snd (h v s))
           \<and> keepsBelow n s (snd (h v s))"
        by (simp add: optionOkF_def)
      then show ?thesis unfolding optionAp_st_def Some option.case by (rule optionMap_st_ok)
    qed
  qed
  have hl: "\<forall>n s fr a. optionOkS n s fr \<and> a \<in> set_option fr \<longrightarrow> n \<le> a \<and> a < length s"
    by (auto simp: optionOkS_def)
  show ?thesis unfolding neutral_def OptionApplySt_sel fst_conv snd_conv
    using seed fnp acc app hl by (intro conjI) assumption+
qed

lemma keepsBelow_unmutated: "keepsBelow (length st) st st' \<Longrightarrow> unmutated st st'"
proof -
  assume k: "keepsBelow (length st) st st'"
  then have t: "take (length st) st' = st" and l: "length st \<le> length st'"
    by (simp_all add: keepsBelow_def)
  have "st' ! a = st ! a" if "a < length st" for a
    using that t by (metis nth_take)
  then show ?thesis using l by (simp add: unmutated_def ownProps_def)
qed

lemma safeResult_safeCall: "safeResult st res \<Longrightarrow> safeCall st (plain res)"
  by (simp add: safeResult_def safeCall_def plain_def newlyAllocated_def keepsBelow_unmutated)

section \<open>The store and the values agree\<close>

text \<open>
  Run on a well-formed struct at a valid address, the operations on the store compute
  what the operations on values compute.
\<close>

lemma ownProps_old: "a < length st \<Longrightarrow> ownProps (st @ xs) a = st ! a"
  by (simp add: ownProps_def nth_append)

lemma ownProps_new: "ownProps (st @ [ob]) (length st) = ob"
  by (simp add: ownProps_def)

lemma loop_on_new_object:
  assumes "a < length st"
  shows "foldl (\<lambda>s k. s[length st := upd k (ownProps s a) (ownProps s (length st))]) (st @ [ob]) ks
           = st @ [foldl (\<lambda>ob k. upd k (st ! a) ob) ob ks]"
proof (induction ks arbitrary: ob)
  case Nil
  then show ?case by simp
next
  case (Cons k ks)
  have "(st @ [ob])[length st := upd k (ownProps (st @ [ob]) a) (ownProps (st @ [ob]) (length st))]
          = st @ [upd k (st ! a) ob]"
    using assms by (simp add: ownProps_old ownProps_new)
  then show ?case using Cons.IH by simp
qed

lemma unCompact_st_result:
  assumes "a < length st"
  shows "unCompact_st a st = (length st, st @ [unCompact (st ! a)])"
proof -
  have "foldl (\<lambda>s key. writeProp (length st) key (fromNullable (getProp (ownProps s a) key)) s)
          (st @ [[]]) ks
        = st @ [foldl (\<lambda>ops key. assignProp key (fromNullable (getProp (st ! a) key)) ops) [] ks]" for ks
    using loop_on_new_object[OF assms,
        of "\<lambda>key src obj. assignProp key (fromNullable (getProp src key)) obj" "[]" ks]
    by (simp add: writeProp_def)
  then show ?thesis
    using assms by (simp add: unCompact_st_def unCompact_def newObject_def ownProps_def)
qed

lemma traverseStep_st_Option_Some:
  assumes "ta < length st"
  shows "agrees st (traverseStep OptionApply f (st ! ta) (Some r) k)
           (traverseStep_st OptionApplySt f ta (Some (length st)) k (st @ [r]))"
proof (cases "f k")
  case None
  then show ?thesis using assms
    by (simp add: traverseStep_st_def traverseStep_def agrees_def keepFn_def copyProp_def
        writeProp_def ownProps_old ownProps_new)
next
  case (Some fk)
  let ?fa = "fk (getProp (st ! ta) k)"
  show ?thesis
  proof (cases "isNone ?fa")
    case (Inl e)
    then show ?thesis using Some assms
      by (simp add: traverseStep_st_def traverseStep_def agrees_def optionAp_st_def
          optionMap_st_def optionAp_def ownProps_old)
  next
    case (Inr b)
    show ?thesis
    proof (cases "readProp ?fa ''value''")
      case (Inl e)
      then show ?thesis using Some Inr assms
        by (simp add: traverseStep_st_def traverseStep_def agrees_def optionAp_st_def
            optionMap_st_def optionAp_def ownProps_old)
    next
      case (Inr v)
      then show ?thesis using Some \<open>isNone ?fa = Inr b\<close> assms
        by (simp add: traverseStep_st_def traverseStep_def agrees_def optionAp_st_def
            optionMap_st_def optionAp_def ownProps_old ownProps_new setFn_def writeProp_def)
    qed
  qed
qed

lemma traverseStep_st_Option_None:
  "traverseStep_st OptionApplySt f ta None k s = (Inr None, s)"
  by (simp add: traverseStep_st_def optionAp_st_def split: option.splits)

lemma traverseLoop_st_Option_None:
  "traverseLoop_st OptionApplySt f ta None ks s = (Inr None, s)"
  by (induction ks) (simp_all add: traverseStep_st_Option_None)

lemma traverseLoop_st_Option_Some:
  assumes "ta < length st"
  shows "agrees st (traverseLoop OptionApply f (st ! ta) (Some r) ks)
           (traverseLoop_st OptionApplySt f ta (Some (length st)) ks (st @ [r]))"
proof (induction ks arbitrary: r)
  case Nil
  then show ?case by (simp add: agrees_def)
next
  case (Cons k ks)
  have step: "agrees st (traverseStep OptionApply f (st ! ta) (Some r) k)
           (traverseStep_st OptionApplySt f ta (Some (length st)) k (st @ [r]))"
    using assms by (rule traverseStep_st_Option_Some)
  obtain sres s1 where sr: "traverseStep_st OptionApplySt f ta (Some (length st)) k (st @ [r]) = (sres, s1)"
    by (metis prod.exhaust)
  show ?case
  proof (cases "traverseStep OptionApply f (st ! ta) (Some r) k")
    case (Inl e)
    then show ?thesis using step sr by (simp add: agrees_def)
  next
    case (Inr fr)
    show ?thesis
    proof (cases fr)
      case None
      then show ?thesis using Inr step sr
        by (simp add: agrees_def traverseLoop_st_Option_None traverseLoop_Option_None)
    next
      case (Some r')
      then show ?thesis using Inr step sr Cons.IH[of r']
        by (simp add: agrees_def)
    qed
  qed
qed

lemma traverseS_st_Option_agrees:
  assumes "ta < length st"
  shows "agrees st (traverseS cmp OptionApply f (st ! ta))
           (traverseS_st cmp OptionApplySt f ta st)"
proof -
  let ?ks = "keys cmp (st ! ta)"
  let ?k0 = "firstKey ?ks"
  let ?seed = "case f ?k0 of Some fk \<Rightarrow> fk (getProp (st ! ta) ?k0) | None \<Rightarrow> getProp (st ! ta) ?k0"
  have op: "ownProps st ta = st ! ta" using assms by (simp add: ownProps_def)
  show ?thesis
  proof (cases "isNone ?seed")
    case (Inl e)
    then show ?thesis
      by (simp add: traverseS_st_def traverseS_def Let_def op optionMap_st_def optionMap_def
          agrees_def cong: option.case_cong)
  next
    case (Inr b)
    show ?thesis
    proof (cases b)
      case True
      then show ?thesis using Inr
        by (simp add: traverseS_st_def traverseS_def Let_def op optionMap_st_def optionMap_def
            agrees_def traverseLoop_st_Option_None traverseLoop_Option_None
            cong: option.case_cong)
    next
      case False
      show ?thesis
      proof (cases "readProp ?seed ''value''")
        case (Inl e)
        then show ?thesis using Inr False
          by (simp add: traverseS_st_def traverseS_def Let_def op optionMap_st_def optionMap_def
              agrees_def cong: option.case_cong)
      next
        case (Inr v)
        then show ?thesis
          using \<open>isNone ?seed = Inr b\<close> False
            traverseLoop_st_Option_Some[OF assms, of f "[(?k0, v)]" "drop 1 ?ks"]
          by (simp add: traverseS_st_def traverseS_def Let_def op optionMap_st_def optionMap_def
              seedFn_def newObject_def cong: option.case_cong)
      qed
    qed
  qed
qed

lemma foldl_keys_getProp:
  assumes "distinct (map fst r)"
  shows "set xs \<subseteq> set r \<Longrightarrow>
     foldl (\<lambda>acc k. step acc (k, getProp r k)) acc (map fst xs) = foldl step acc xs"
proof (induction xs arbitrary: acc)
  case Nil
  then show ?case by simp
next
  case (Cons kv xs)
  then have "kv \<in> set r" and sub: "set xs \<subseteq> set r" by simp_all
  then have "getProp r (fst kv) = snd kv" using assms getProp_member by blast
  then show ?case using Cons.IH[OF sub] by simp
qed

lemma assignStep_st_new_object:
  assumes "a < length st"
  shows "foldl (assignStep_st (length st) a) (hs, st @ [ob]) ks
           = (snd (foldl (\<lambda>acc k. assignStep acc (k, getProp (st ! a) k)) (ob, hs) ks),
              st @ [fst (foldl (\<lambda>acc k. assignStep acc (k, getProp (st ! a) k)) (ob, hs) ks)])"
proof (induction ks arbitrary: hs ob)
  case Nil
  then show ?case by simp
next
  case (Cons k ks)
  let ?w = "assignStep (ob, hs) (k, getProp (st ! a) k)"
  have "assignStep_st (length st) a (hs, st @ [ob]) k = (snd ?w, st @ [fst ?w])"
    using assms by (simp add: assignStep_st_def Let_def ownProps_old ownProps_new)
  then show ?case using Cons.IH[of "snd ?w" "fst ?w"] by simp
qed

lemma objectAssign_new_object:
  assumes "a < length st" and "wf_struct (st ! a)"
  shows "objectAssign (length st) a (hs, st @ [ob])
           = (snd (Object_assign (ob, hs) (st ! a)), st @ [fst (Object_assign (ob, hs) (st ! a))])"
proof -
  have "foldl (\<lambda>acc k. assignStep acc (k, getProp (st ! a) k)) (ob, hs) (map fst (st ! a))
        = foldl assignStep (ob, hs) (st ! a)"
    using foldl_keys_getProp[of "st ! a" "st ! a" assignStep "(ob, hs)"] assms(2)
    by (simp add: wf_struct_def)
  then show ?thesis
    using assms(1) assignStep_st_new_object[OF assms(1), of hs ob "map fst (st ! a)"]
    by (simp add: objectAssign_def Object_assign_def keysOf_def ownProps_old)
qed

lemma concat_st_result:
  assumes "x < length st" and "y < length st" and "wf_struct (st ! x)" and "wf_struct (st ! y)"
  shows "concat_st x y st = (length st, st @ [concat_assign (st ! x) (st ! y)])"
  using assms by (simp add: concat_st_def newObject_def objectAssign_new_object concat_assign_def)

lemma loop_on_two_new_objects:
  assumes step: "\<And>k l r. stepB k (st ! a) (st @ [l, r])
              = st @ [fst (pstep k (st ! a) (l, r)), snd (pstep k (st ! a) (l, r))]"
    and "a < length st"
  shows "foldl (\<lambda>s k. stepB k (ownProps s a) s) (st @ [l, r]) ks
           = st @ [fst (foldl (\<lambda>acc k. pstep k (st ! a) acc) (l, r) ks),
                   snd (foldl (\<lambda>acc k. pstep k (st ! a) acc) (l, r) ks)]"
proof (induction ks arbitrary: l r)
  case Nil
  then show ?case by simp
next
  case (Cons k ks)
  have "ownProps (st @ [l, r]) a = st ! a" using assms(2) by (rule ownProps_old)
  then show ?case
    using Cons.IH[of "fst (pstep k (st ! a) (l, r))" "snd (pstep k (st ! a) (l, r))"] step
    by simp
qed

lemma partitionMapLoop_st_result:
  assumes "r < length st"
  shows "case partitionMapLoop f (l, q) (map (\<lambda>k. (k, getProp (st ! r) k)) ks) of
           Inl err \<Rightarrow>
             fst (partitionMapLoop_st f r (length st) (Suc (length st)) ks (st @ [l, q])) = Some err
         | Inr acc \<Rightarrow>
             partitionMapLoop_st f r (length st) (Suc (length st)) ks (st @ [l, q])
               = (None, st @ [fst acc, snd acc])"
proof (induction ks arbitrary: l q)
  case Nil
  then show ?case by simp
next
  case (Cons k ks)
  let ?v = "getProp (st ! r) k"
  have v: "getProp (ownProps (st @ [l, q]) r) k = ?v" using assms by (simp add: ownProps_old)
  show ?case
  proof (cases "andThen (f k ?v) fileEither")
    case (Inl err)
    then show ?thesis
      by (cases "f k ?v") (simp_all add: v partitionMapStep_def andThen_def split: sum.splits)
  next
    case (Inr d)
    then obtain e where e: "f k ?v = Inr e" and fe: "fileEither e = Inr d"
      by (cases "f k ?v") (simp_all add: andThen_def)
    show ?thesis
    proof (cases d)
      case (Inl x)
      have w: "writeProp (length st) k x (st @ [l, q]) = st @ [assignProp k x l, q]"
        by (simp add: writeProp_def ownProps_def nth_append list_update_append)
      from Cons.IH[of "assignProp k x l" q] show ?thesis
        using Inl e fe by (auto simp: v w partitionMapStep_def andThen_def split: sum.splits)
    next
      case (Inr x)
      have w: "writeProp (Suc (length st)) k x (st @ [l, q]) = st @ [l, assignProp k x q]"
        by (simp add: writeProp_def ownProps_def nth_append list_update_append)
      from Cons.IH[of l "assignProp k x q"] show ?thesis
        using Inr e fe by (auto simp: v w partitionMapStep_def andThen_def split: sum.splits)
    qed
  qed
qed

lemma fields_of_keys:
  "distinct (map fst r) \<Longrightarrow> set xs \<subseteq> set r \<Longrightarrow> map (\<lambda>k. (k, getProp r k)) (map fst xs) = xs"
proof (induction xs)
  case Nil
  then show ?case by simp
next
  case (Cons kv xs)
  then have "kv \<in> set r" by simp
  then have "getProp r (fst kv) = snd kv" using Cons.prems(1) getProp_member by blast
  then show ?case using Cons by simp
qed

lemma partitionMapWithIndex_st_result:
  assumes "r < length st" and "wf_struct (st ! r)"
  shows "case partitionMapWithIndex f (st ! r) of
           Inl err \<Rightarrow> fst (partitionMapWithIndex_st f r st) = Inl err
         | Inr acc \<Rightarrow> partitionMapWithIndex_st f r st
             = (Inr (length st, Suc (length st)), st @ [fst acc, snd acc])"
proof -
  have fields: "map (\<lambda>k. (k, getProp (st ! r) k)) (map fst (st ! r)) = st ! r"
    by (rule fields_of_keys[where r = "st ! r" and xs = "st ! r"])
       (use assms(2) in \<open>simp_all add: wf_struct_def\<close>)
  have loop: "case partitionMapLoop f ([], []) (st ! r) of
           Inl err \<Rightarrow>
             fst (partitionMapLoop_st f r (length st) (Suc (length st)) (map fst (st ! r))
                    (st @ [[], []])) = Some err
         | Inr acc \<Rightarrow>
             partitionMapLoop_st f r (length st) (Suc (length st)) (map fst (st ! r))
               (st @ [[], []]) = (None, st @ [fst acc, snd acc])"
    using partitionMapLoop_st_result[OF assms(1), where f = f and l = "[]" and q = "[]"
        and ks = "map fst (st ! r)"]
    unfolding fields .
  show ?thesis
    using loop assms(1)
    by (auto simp: partitionMapWithIndex_st_def partitionMapWithIndex_def newObject_def
        keysOf_def ownProps_old split_def Let_def split: sum.splits)
qed

lemma parse_st_result:
  assumes "fa < length st" and "wf_struct (st ! fa)"
  shows "case parse f (st ! fa) of
           Inl err \<Rightarrow> fst (parse_st f fa st) = Inl err
         | Inr (Inl e) \<Rightarrow> fst (parse_st f fa st) = Inr (Inl (length st))
             \<and> ownProps (snd (parse_st f fa st)) (length st) = e
         | Inr (Inr p) \<Rightarrow> fst (parse_st f fa st) = Inr (Inr (Suc (length st)))
             \<and> ownProps (snd (parse_st f fa st)) (Suc (length st)) = p"
  using partitionMapWithIndex_st_result[OF assms, of "parseField f"] assms(1)
  by (auto simp: parse_st_def parse_def split_def andThen_def ownProps_def nth_append
      split: sum.splits)

lemma loop_on_new_object_step:
  assumes step: "\<And>k ob. stepA k (st ! a) (st @ [ob]) = st @ [upd k (st ! a) ob]"
    and "a < length st"
  shows "foldl (\<lambda>s k. stepA k (ownProps s a) s) (st @ [ob]) ks
           = st @ [foldl (\<lambda>ob k. upd k (st ! a) ob) ob ks]"
proof (induction ks arbitrary: ob)
  case Nil
  then show ?case by simp
next
  case (Cons k ks)
  have "ownProps (st @ [ob]) a = st ! a" using assms(2) by (rule ownProps_old)
  then show ?case using Cons.IH[of "upd k (st ! a) ob"] step by simp
qed

lemma partitionR_st_result:
  assumes "r < length st" and "wf_struct (st ! r)"
  shows "partitionR_st p r st =
     ((length st, Suc (length st)),
      st @ [fst (partitionR p (st ! r)), snd (partitionR p (st ! r))])"
proof -
  let ?n = "length st"
  let ?pairstep = "\<lambda>acc kv. if p (snd kv) then (fst acc, assignProp (fst kv) (snd kv) (snd acc))
                      else (assignProp (fst kv) (snd kv) (fst acc), snd acc)"
  let ?pstep = "\<lambda>k src acc. ?pairstep acc (k, getProp src k)"
  let ?stepB = "\<lambda>k src s. let a = getProp src k
                  in if p a then writeProp (Suc ?n) k a s else writeProp ?n k a s"
  have step: "?stepB k (st ! r) (st @ [l, q])
              = st @ [fst (?pstep k (st ! r) (l, q)), snd (?pstep k (st ! r) (l, q))]" for k l q
    by (simp add: writeProp_def ownProps_def nth_append list_update_append Let_def)
  have loop: "foldl (\<lambda>s k. ?stepB k (ownProps s r) s) (st @ [[], []]) ks
        = st @ [fst (foldl (\<lambda>acc k. ?pstep k (st ! r) acc) ([], []) ks),
                snd (foldl (\<lambda>acc k. ?pstep k (st ! r) acc) ([], []) ks)]" for ks
    by (rule loop_on_two_new_objects[where stepB = ?stepB and pstep = ?pstep])
       (use step assms(1) in simp_all)
  have pairs: "foldl (\<lambda>acc k. ?pstep k (st ! r) acc) ([], []) (map fst (st ! r))
        = foldl ?pairstep ([], []) (st ! r)"
    using foldl_keys_getProp[of "st ! r" "st ! r" ?pairstep "([], [])"] assms(2)
    by (simp add: wf_struct_def)
  show ?thesis
    using assms(1) loop[of "map fst (st ! r)"] pairs
    by (simp add: partitionR_st_def partitionR_def newObject_def keysOf_def ownProps_old Let_def
        cong: if_cong)
qed

lemma filterMapR_st_result:
  assumes "r < length st" and "wf_struct (st ! r)"
  shows "filterMapR_st f r st = (length st, st @ [filterMapR f (st ! r)])"
proof -
  let ?n = "length st"
  let ?pairstep = "\<lambda>out kv. if lookupChain (f (snd kv)) ''_tag'' = Some (VStr ''Some'')
        then assignProp (fst kv) (payload (f (snd kv))) out else out"
  let ?upd = "\<lambda>k src out. ?pairstep out (k, getProp src k)"
  let ?stepA = "\<lambda>k src s. let ob = f (getProp src k)
                  in if lookupChain ob ''_tag'' = Some (VStr ''Some'')
                     then writeProp ?n k (payload ob) s else s"
  have step: "?stepA k (st ! r) (st @ [ob]) = st @ [?upd k (st ! r) ob]" for k ob
    by (simp add: writeProp_def ownProps_def Let_def)
  have loop: "foldl (\<lambda>s k. ?stepA k (ownProps s r) s) (st @ [[]]) ks
        = st @ [foldl (\<lambda>ob k. ?upd k (st ! r) ob) [] ks]" for ks
    by (rule loop_on_new_object_step[where stepA = ?stepA and upd = ?upd])
       (use step assms(1) in simp_all)
  have pairs: "foldl (\<lambda>ob k. ?upd k (st ! r) ob) [] (map fst (st ! r))
        = foldl ?pairstep [] (st ! r)"
    using foldl_keys_getProp[of "st ! r" "st ! r" ?pairstep "[]"] assms(2)
    by (simp add: wf_struct_def)
  show ?thesis
    using assms(1) loop[of "map fst (st ! r)"] pairs
    by (simp add: filterMapR_st_def filterMapR_def newObject_def keysOf_def ownProps_old Let_def)
qed

lemma compactS_st_result:
  assumes "r < length st" and "wf_struct (st ! r)"
  shows "fst (compactS_st r st) = length st + 3
       \<and> ownProps (snd (compactS_st r st)) (length st + 3) = compactS (st ! r)"
proof -
  let ?L = "fst (partitionR isOption (st ! r))"
  let ?R = "snd (partitionR isOption (st ! r))"
  let ?st1 = "st @ [?L, ?R]"
  have wR: "wf_struct ?R"
    using wf_assignable[OF assms(2)] assms(2)
    by (simp add: partitionR_closed wf_struct_def distinct_keys_filter)
  have r1: "Suc (length st) < length ?st1" by simp
  have R1: "?st1 ! Suc (length st) = ?R" by (simp add: nth_append)
  have fm: "filterMapR_st (\<lambda>a. a) (Suc (length st)) ?st1
              = (length ?st1, ?st1 @ [filterMapR (\<lambda>a. a) ?R])"
    using filterMapR_st_result[OF r1, of "\<lambda>a. a"] wR R1 by simp
  show ?thesis
    using assms fm
    by (simp add: compactS_st_def partitionR_st_result newObject_def compactS_def split_def
        ownProps_def nth_append Let_def)
qed

section \<open>Mutation: the claim\<close>

text \<open>
  Claim C9. No exposed operation mutates its input struct, and the struct it returns is
  a newly allocated object distinct from the input. On the store: whichever of
  \<open>evolve\<close>, \<open>refine\<close>, \<open>parse\<close>, \<open>traverseS\<close>, \<open>compactS\<close>, \<open>unCompact\<close>,
  \<open>pick\<close>, \<open>omit\<close> in both revisions, \<open>mapAt\<close>, which is also \<open>modifyAt\<close>,
  \<open>updateAt\<close>, \<open>insertAt\<close>, \<open>renameAt\<close> and the semigroup's \<open>concat\<close> is run,
  from any store and on any structs \<open>x\<close> and \<open>y\<close> of it, every object of the store
  has afterwards the same own fields with the same values, the inputs among them, and
  every struct returned, also inside an \<open>Option\<close>, an \<open>Either\<close> or an effect, sits
  at an address allocated during the call, which is the address of no input. The
  capability supplied to \<open>traverseS\<close> is one that touches the store only through the
  closures it is handed.
\<close>

theorem operations_leave_input_unmutated:
  assumes "neutral F okS okF"
  shows "safeCall st (plain (evolve_st f x st))
       \<and> safeCall st (optional (refine_st predicates x st))
       \<and> safeCall st (either (parse_st parsers x st))
       \<and> safeCall st (effect F (traverseS_st cmp F h x st))
       \<and> safeCall st (plain (compactS_st x st))
       \<and> safeCall st (plain (unCompact_st x st))
       \<and> safeCall st (plain (pick_st ks x st))
       \<and> safeCall st (plain (omit_st ks x st))
       \<and> safeCall st (plain (omit2_st ks x st))
       \<and> safeCall st (plain (mapAt_st prop g x st))
       \<and> safeCall st (plain (updateAt_st prop v x st))
       \<and> safeCall st (plain (insertAt_st prop v x st))
       \<and> safeCall st (plain (renameAt_st prop to x st))
       \<and> safeCall st (plain (concat_st x y st))"
proof -
  have r: "safeCall st (optional (refine_st predicates x st))"
    using refine_st_safe[of st predicates x]
    by (auto simp: safeCall_def optional_def newlyAllocated_def keepsBelow_unmutated)
  have p: "safeCall st (either (parse_st parsers x st))"
    using parse_st_safe[of st parsers x]
    by (auto simp: safeCall_def either_def newlyAllocated_def keepsBelow_unmutated split: sum.splits)
  have t: "safeCall st (effect F (traverseS_st cmp F h x st))"
    using traverseS_st_neutral[OF assms, of st cmp h x]
    by (auto simp: safeCall_def effect_def newlyAllocated_def keepsBelow_unmutated split: sum.splits)
  show ?thesis
    using r p t
    by (simp add: safeResult_safeCall evolve_st_safe compactS_st_safe unCompact_st_safe
        pick_st_safe omit_st_safe omit2_st_safe mapAt_st_safe updateAt_st_safe insertAt_st_safe
        renameAt_st_safe concat_st_safe)
qed

theorem operations_leave_input_unmutated_witness:
  "neutral OptionApplySt optionOkS optionOkF
   \<and> traverseS_st StringOrd OptionApplySt exHandlers 0 [abcStruct]
       = (Inr (Some 1), [abcStruct, [(''a'', VNum 2), (''b'', VNum 1), (''c'', VStr ''abc'')]])
   \<and> safeCall [abcStruct] (effect OptionApplySt (traverseS_st StringOrd OptionApplySt exHandlers 0 [abcStruct]))
   \<and> compactS_st 0 [shapesStruct] = (4, [shapesStruct,
         [(''t'', VObj [(''_tag'', VStr ''Some''), (''value'', VNum 1), (''extra'', VNum 2)] VNull),
          (''u'', VNum 3)],
         [(''n'', VObj [(''_tag'', VStr ''None''), (''value'', VNum 5), (''x'', VNum 1)] VNull),
          (''s'', VObj [(''_tag'', VStr ''Some''), (''x'', VNum 1)] (VObj [(''value'', VNum 7)] VNull))],
         [(''s'', VNum 7)],
         compactS shapesStruct])"
proof -
  have e1: "traverseS_st StringOrd OptionApplySt exHandlers 0 [abcStruct]
       = (Inr (Some 1), [abcStruct, [(''a'', VNum 2), (''b'', VNum 1), (''c'', VStr ''abc'')]])"
    by code_simp
  have e2: "compactS_st 0 [shapesStruct] = (4, [shapesStruct,
         [(''t'', VObj [(''_tag'', VStr ''Some''), (''value'', VNum 1), (''extra'', VNum 2)] VNull),
          (''u'', VNum 3)],
         [(''n'', VObj [(''_tag'', VStr ''None''), (''value'', VNum 5), (''x'', VNum 1)] VNull),
          (''s'', VObj [(''_tag'', VStr ''Some''), (''x'', VNum 1)] (VObj [(''value'', VNum 7)] VNull))],
         [(''s'', VNum 7)],
         compactS shapesStruct])"
    by code_simp
  from operations_leave_input_unmutated[OF OptionApplySt_neutral,
         of "[abcStruct]" "\<lambda>k. None" 0 "\<lambda>k. None" noParsers StringOrd exHandlers "[]" "''a''" "\<lambda>v. v" VNull "''b''" 0]
  show ?thesis using OptionApplySt_neutral e1 e2 by simp
qed

end
